theory Spec2Isabelle
  imports Complex_Main "HOL-Library.Stream" "HOL-Library.Char_ord"
begin

section \<open>Reber grammar strings: the embedding of Lab8/Lab8_1.ipynb\<close>

subsection \<open>Grammars\<close>

text \<open>
  A grammar is a list of states, a state a list of transitions, a transition a pair of a
  production and the next state (\<open>None\<close> is Python's \<^verbatim>\<open>None\<close>, the terminal
  sentinel). A production is a Python string or, when it is a list, a nested grammar.
  State indices are natural numbers: the grammars of the notebook use no negative index.
\<close>

datatype production = Lit string | Sub "(production \<times> nat option) list list"

type_synonym transition = "production \<times> nat option"
type_synonym grammar = "transition list list"

definition default_reber_grammar :: grammar where
  "default_reber_grammar =
    [[(Lit ''B'', Some 1)],
     [(Lit ''T'', Some 2), (Lit ''P'', Some 3)],
     [(Lit ''S'', Some 2), (Lit ''X'', Some 4)],
     [(Lit ''T'', Some 3), (Lit ''V'', Some 5)],
     [(Lit ''X'', Some 3), (Lit ''S'', Some 6)],
     [(Lit ''P'', Some 4), (Lit ''V'', Some 6)],
     [(Lit ''E'', None)]]"

definition embedded_reber_grammar :: grammar where
  "embedded_reber_grammar =
    [[(Lit ''B'', Some 1)],
     [(Lit ''T'', Some 2), (Lit ''P'', Some 3)],
     [(Sub default_reber_grammar, Some 4)],
     [(Sub default_reber_grammar, Some 5)],
     [(Lit ''T'', Some 6)],
     [(Lit ''P'', Some 6)],
     [(Lit ''E'', None)]]"

definition POSSIBLE_CHARS :: string where
  "POSSIBLE_CHARS = ''BEPSTVX''"

subsection \<open>The random source\<close>

text \<open>
  The notebook draws from the process-wide generator of \<^verbatim>\<open>np.random\<close>, which
  \<^verbatim>\<open>np.random.seed\<close> sets. Its state is made explicit here as the infinite sequence of
  the draws still to come: every function that draws takes the state and returns the rest.
  \<^verbatim>\<open>np.random.randint(n)\<close> takes the next draw and yields a number below \<open>n\<close> from
  it; it raises \<^verbatim>\<open>ValueError\<close> when \<open>n\<close> is not positive. Every sequence of results
  that the calls of \<^verbatim>\<open>randint\<close> can have is the one of some draw sequence, so a
  statement about all draw sequences is one about all seeds and all generators.
\<close>

datatype error = IndexError | ValueError

type_synonym rng = "nat stream"

type_synonym 'a result = "(error + 'a \<times> rng) option"

definition randint :: "nat \<Rightarrow> rng \<Rightarrow> error + nat \<times> rng" where
  "randint n r = (if n = 0 then Inl ValueError else Inr (shd r mod n, stl r))"

text \<open>\<^verbatim>\<open>np.random.choice(xs)\<close>: one index draw; an empty \<open>xs\<close> raises \<^verbatim>\<open>ValueError\<close>.\<close>

definition choice :: "'a list \<Rightarrow> rng \<Rightarrow> error + 'a \<times> rng" where
  "choice xs r =
     (case randint (length xs) r of
        Inl e \<Rightarrow> Inl e
      | Inr (i, r') \<Rightarrow> Inr (xs ! i, r'))"

subsection \<open>generate_string\<close>

text \<open>
  The \<^verbatim>\<open>while state is not None\<close> loop of \<^verbatim>\<open>generate_string\<close>, with the loop variables
  \<open>state\<close> and \<open>output\<close> as arguments. The loop need not end (a draw sequence can stay in
  a cycle of the grammar for ever), so not returning is the value \<open>None\<close>. A state index
  outside the grammar raises \<^verbatim>\<open>IndexError\<close>, a state without transitions makes
  \<^verbatim>\<open>randint(0)\<close> raise \<^verbatim>\<open>ValueError\<close>. The recursive call for a nested grammar is the
  loop of that grammar started at state 0 with an empty output.
\<close>

partial_function (option) generate_loop ::
  "grammar \<Rightarrow> nat option \<Rightarrow> string list \<Rightarrow> rng \<Rightarrow> (error + string \<times> rng) option"
where
  "generate_loop grammar state output r =
     (case state of
        None \<Rightarrow> Some (Inr (concat output, r))
      | Some st \<Rightarrow>
          if length grammar \<le> st then Some (Inl IndexError)
          else
            (case randint (length (grammar ! st)) r of
               Inl e \<Rightarrow> Some (Inl e)
             | Inr (index, r1) \<Rightarrow>
                 (case grammar ! st ! index of
                    (Lit s, state') \<Rightarrow> generate_loop grammar state' (output @ [s]) r1
                  | (Sub g, state') \<Rightarrow>
                      Option.bind (generate_loop g (Some 0) [] r1)
                        (\<lambda>res. case res of
                           Inl e \<Rightarrow> Some (Inl e)
                         | Inr (s, r2) \<Rightarrow> generate_loop grammar state' (output @ [s]) r2))))"

definition generate_string :: "grammar \<Rightarrow> rng \<Rightarrow> string result" where
  "generate_string grammar r = generate_loop grammar (Some 0) [] r"

subsection \<open>generate_corrupted_string\<close>

definition generate_corrupted_string :: "grammar \<Rightarrow> string \<Rightarrow> rng \<Rightarrow> string result" where
  "generate_corrupted_string grammar chars r =
     (case generate_string grammar r of
        None \<Rightarrow> None
      | Some (Inl e) \<Rightarrow> Some (Inl e)
      | Some (Inr (good_string, r1)) \<Rightarrow>
          (case randint (length good_string) r1 of
             Inl e \<Rightarrow> Some (Inl e)
           | Inr (index, r2) \<Rightarrow>
               (let good_char = good_string ! index in
                case choice (sorted_list_of_set (set chars - {good_char})) r2 of
                  Inl e \<Rightarrow> Some (Inl e)
                | Inr (bad_char, r3) \<Rightarrow>
                    Some (Inr (take index good_string @ [bad_char] @
                                 drop (index + 1) good_string, r3)))))"

subsection \<open>string_to_ids\<close>

text \<open>\<^verbatim>\<open>chars.index(c)\<close>: the first position of \<open>c\<close>, \<^verbatim>\<open>ValueError\<close> when there is none.\<close>

fun str_index :: "string \<Rightarrow> char \<Rightarrow> error + nat" where
  "str_index [] c = Inl ValueError"
| "str_index (x # xs) c =
     (if x = c then Inr 0
      else (case str_index xs c of Inl e \<Rightarrow> Inl e | Inr i \<Rightarrow> Inr (Suc i)))"

fun string_to_ids :: "string \<Rightarrow> string \<Rightarrow> error + nat list" where
  "string_to_ids [] chars = Inr []"
| "string_to_ids (c # s) chars =
     (case str_index chars c of
        Inl e \<Rightarrow> Inl e
      | Inr i \<Rightarrow> (case string_to_ids s chars of Inl e \<Rightarrow> Inl e | Inr ids \<Rightarrow> Inr (i # ids)))"

subsection \<open>generate_dataset\<close>

text \<open>
  A list comprehension \<^verbatim>\<open>[f() for _ in range(n)]\<close> over a drawing function: the calls run
  in order on the one random source, and the first exception ends the comprehension.
\<close>

fun comprehension :: "nat \<Rightarrow> (rng \<Rightarrow> 'a result) \<Rightarrow> rng \<Rightarrow> 'a list result" where
  "comprehension 0 f r = Some (Inr ([], r))"
| "comprehension (Suc n) f r =
     (case f r of
        None \<Rightarrow> None
      | Some (Inl e) \<Rightarrow> Some (Inl e)
      | Some (Inr (x, r1)) \<Rightarrow>
          (case comprehension n f r1 of
             None \<Rightarrow> None
           | Some (Inl e) \<Rightarrow> Some (Inl e)
           | Some (Inr (xs, r2)) \<Rightarrow> Some (Inr (x # xs, r2))))"

text \<open>\<^verbatim>\<open>string_to_ids(g(...))\<close>: the string is generated first and encoded after.\<close>

definition encoded :: "(rng \<Rightarrow> string result) \<Rightarrow> rng \<Rightarrow> nat list result" where
  "encoded g r =
     (case g r of
        None \<Rightarrow> None
      | Some (Inl e) \<Rightarrow> Some (Inl e)
      | Some (Inr (s, r1)) \<Rightarrow>
          (case string_to_ids s POSSIBLE_CHARS of
             Inl e \<Rightarrow> Some (Inl e)
           | Inr ids \<Rightarrow> Some (Inr (ids, r1))))"

text \<open>
  The requested size \<open>n\<close> is a Python integer: \<^verbatim>\<open>range\<close> of a negative number is empty, and \<open>div\<close> on
  \<open>int\<close> rounds down as \<^verbatim>\<open>//\<close> does. The result is the pair \<open>(X, y)\<close>: the ragged
  tensor as the list of id sequences, the label array as the list of its rows
  \<^verbatim>\<open>[1.]\<close> and \<^verbatim>\<open>[0.]\<close>.
\<close>

definition generate_dataset :: "int \<Rightarrow> rng \<Rightarrow> (nat list list \<times> real list list) result" where
  "generate_dataset n r =
     (case comprehension (nat (n div 2))
             (encoded (generate_string embedded_reber_grammar)) r of
        None \<Rightarrow> None
      | Some (Inl e) \<Rightarrow> Some (Inl e)
      | Some (Inr (good_strings, r1)) \<Rightarrow>
          (case comprehension (nat (n - n div 2))
                  (encoded (generate_corrupted_string embedded_reber_grammar POSSIBLE_CHARS)) r1 of
             None \<Rightarrow> None
           | Some (Inl e) \<Rightarrow> Some (Inl e)
           | Some (Inr (bad_strings, r2)) \<Rightarrow>
               Some (Inr ((good_strings @ bad_strings,
                           replicate (length good_strings) [1] @
                           replicate (length bad_strings) [0]), r2))))"

subsection \<open>Derivations of a grammar\<close>

text \<open>
  \<open>derives g st w\<close>: the grammar \<open>g\<close>, started in state \<open>st\<close>, reaches the terminal
  sentinel along transitions whose productions spell exactly \<open>w\<close>; the production of a
  nested grammar is a complete derivation of that grammar from its state 0.
\<close>

inductive derives :: "grammar \<Rightarrow> nat option \<Rightarrow> string \<Rightarrow> bool" where
  terminal: "derives g None []"
| literal: "st < length g \<Longrightarrow> (Lit a, st') \<in> set (g ! st) \<Longrightarrow> derives g st' w \<Longrightarrow>
     derives g (Some st) (a @ w)"
| nested: "st < length g \<Longrightarrow> (Sub g', st') \<in> set (g ! st) \<Longrightarrow> derives g' (Some 0) u \<Longrightarrow>
     derives g st' w \<Longrightarrow> derives g (Some st) (u @ w)"

text \<open>
  Running a string forward through the transition table of a grammar without nested
  productions: each symbol selects the transition that carries it, and the string is
  accepted when the terminal sentinel is reached as the symbols run out.
\<close>

fun next_state :: "transition list \<Rightarrow> char \<Rightarrow> nat option option" where
  "next_state [] c = None"
| "next_state ((p, st') # ts) c = (if p = Lit [c] then Some st' else next_state ts c)"

fun run_forward :: "grammar \<Rightarrow> nat option \<Rightarrow> string \<Rightarrow> bool" where
  "run_forward g None s = (s = [])"
| "run_forward g (Some st) [] = False"
| "run_forward g (Some st) (c # s) =
     (st < length g \<and>
      (case next_state (g ! st) c of None \<Rightarrow> False | Some st' \<Rightarrow> run_forward g st' s))"

text \<open>The two grammars of the notebook.\<close>

definition stock :: "grammar \<Rightarrow> bool" where
  "stock g \<longleftrightarrow> g = default_reber_grammar \<or> g = embedded_reber_grammar"

text \<open>
  A draw sequence on which generation returns: two odd draws in a row occur again and
  again. From each of the states 2 to 5 of the default grammar two odd draws in a row lead
  to state 6. (The sequences that keep generation in a cycle for ever are not of this kind.)
\<close>

definition fair :: "rng \<Rightarrow> bool" where
  "fair r \<longleftrightarrow> (\<forall>n. \<exists>k\<ge>n. odd (r !! k) \<and> odd (r !! Suc k))"

subsection \<open>Sessions of calls on the random source\<close>

text \<open>
  Calls made one after the other on the shared random source, as the cells of the notebook
  make them after seeding it: each call starts from the state the previous one left, and
  the first exception ends the session.
\<close>

fun session :: "(rng \<Rightarrow> 'a result) list \<Rightarrow> rng \<Rightarrow> 'a list result" where
  "session [] r = Some (Inr ([], r))"
| "session (f # fs) r =
     (case f r of
        None \<Rightarrow> None
      | Some (Inl e) \<Rightarrow> Some (Inl e)
      | Some (Inr (x, r1)) \<Rightarrow>
          (case session fs r1 of
             None \<Rightarrow> None
           | Some (Inl e) \<Rightarrow> Some (Inl e)
           | Some (Inr (xs, r2)) \<Rightarrow> Some (Inr (x # xs, r2))))"

text \<open>The three drawing functions of the notebook as calls, with what they return.\<close>

datatype call =
  Call_generate_string grammar
| Call_generate_corrupted_string grammar string
| Call_generate_dataset int

datatype call_output = Output_string string | Output_dataset "nat list list \<times> real list list"

fun perform :: "call \<Rightarrow> rng \<Rightarrow> call_output result" where
  "perform (Call_generate_string g) r =
     (case generate_string g r of
        None \<Rightarrow> None
      | Some (Inl e) \<Rightarrow> Some (Inl e)
      | Some (Inr (s, r1)) \<Rightarrow> Some (Inr (Output_string s, r1)))"
| "perform (Call_generate_corrupted_string g chars) r =
     (case generate_corrupted_string g chars r of
        None \<Rightarrow> None
      | Some (Inl e) \<Rightarrow> Some (Inl e)
      | Some (Inr (s, r1)) \<Rightarrow> Some (Inr (Output_string s, r1)))"
| "perform (Call_generate_dataset n) r =
     (case generate_dataset n r of
        None \<Rightarrow> None
      | Some (Inl e) \<Rightarrow> Some (Inl e)
      | Some (Inr (d, r1)) \<Rightarrow> Some (Inr (Output_dataset d, r1)))"

text \<open>
  A drawing function is determined by the draws it takes when every run that returns
  leaves the random source advanced by some number \<open>m\<close> of draws, and every run on a
  source with the same first \<open>m\<close> draws returns the same value, advanced by \<open>m\<close> as well.
\<close>

definition draw_determined :: "(rng \<Rightarrow> 'a result) \<Rightarrow> bool" where
  "draw_determined f \<longleftrightarrow>
     (\<forall>r x r'. f r = Some (Inr (x, r')) \<longrightarrow>
        (\<exists>m. r' = sdrop m r \<and>
           (\<forall>q. stake m q = stake m r \<longrightarrow> f q = Some (Inr (x, sdrop m q)))))"

section \<open>The encoder\<close>

lemma str_index_Inl: "str_index xs c = Inl e \<longleftrightarrow> c \<notin> set xs \<and> e = ValueError"
  by (induction xs) (auto split: sum.splits)

lemma str_index_Inr:
  "str_index xs c = Inr i \<longleftrightarrow> i < length xs \<and> xs ! i = c \<and> (\<forall>j<i. xs ! j \<noteq> c)"
proof (induction xs arbitrary: i)
  case Nil
  then show ?case by simp
next
  case (Cons x xs)
  show ?case
  proof (cases "x = c")
    case True
    then show ?thesis by (cases i) auto
  next
    case False
    show ?thesis
    proof (cases i)
      case 0
      with False show ?thesis by (auto split: sum.splits)
    next
      case (Suc k)
      have "(\<forall>j<Suc k. (x # xs) ! j \<noteq> c) \<longleftrightarrow> (\<forall>j<k. xs ! j \<noteq> c)"
        using False by (auto simp: less_Suc_eq_0_disj)
      with False Suc Cons.IH [of k] show ?thesis
        by (auto split: sum.splits)
    qed
  qed
qed

lemma str_index_mem: "str_index xs c = Inr i \<Longrightarrow> c \<in> set xs"
  by (induction xs arbitrary: i) (auto split: sum.splits if_splits)

lemma string_to_ids_Inl:
  "string_to_ids s chars = Inl e \<longleftrightarrow> \<not> set s \<subseteq> set chars \<and> e = ValueError"
proof (induction s)
  case Nil
  then show ?case by simp
next
  case (Cons c s)
  show ?case
  proof (cases "str_index chars c")
    case (Inl e')
    then have "c \<notin> set chars" "e' = ValueError" by (simp_all add: str_index_Inl)
    with Inl show ?thesis by auto
  next
    case (Inr i)
    then have "c \<in> set chars" by (rule str_index_mem)
    with Inr Cons.IH show ?thesis by (auto split: sum.splits)
  qed
qed

lemma string_to_ids_Inr:
  "string_to_ids s chars = Inr ids \<longleftrightarrow>
     length ids = length s \<and> (\<forall>i<length s. str_index chars (s ! i) = Inr (ids ! i))"
proof (induction s arbitrary: ids)
  case Nil
  then show ?case by auto
next
  case (Cons c s)
  show ?case
  proof (cases ids)
    case Nil
    then show ?thesis by (auto split: sum.splits)
  next
    case (Cons i ids')
    then show ?thesis
      using Cons.IH [of ids']
      by (auto simp: less_Suc_eq_0_disj split: sum.splits)
  qed
qed

text \<open>
  C4: when every symbol of the input belongs to the alphabet, \<open>string_to_ids\<close> returns a
  sequence of the input's length whose entry \<open>i\<close> is the zero-based position (the first one)
  of symbol \<open>i\<close> in the alphabet; and \<^verbatim>\<open>string_to_ids("BTTTXXVVETE")\<close> is
  \<^verbatim>\<open>[0,4,4,4,6,6,5,5,1,4,1]\<close>.
\<close>

theorem string_to_ids_alphabet_index:
  "(set s \<subseteq> set chars \<longrightarrow>
      (\<exists>ids. string_to_ids s chars = Inr ids \<and> length ids = length s \<and>
         (\<forall>i<length s. ids ! i < length chars \<and> chars ! (ids ! i) = s ! i \<and>
            (\<forall>j<ids ! i. chars ! j \<noteq> s ! i)))) \<and>
   string_to_ids ''BTTTXXVVETE'' POSSIBLE_CHARS = Inr [0, 4, 4, 4, 6, 6, 5, 5, 1, 4, 1]"
proof (intro conjI impI)
  assume sub: "set s \<subseteq> set chars"
  obtain ids where ids: "string_to_ids s chars = Inr ids"
  proof (cases "string_to_ids s chars")
    case (Inl e)
    with sub show ?thesis by (simp add: string_to_ids_Inl)
  next
    case (Inr ids)
    then show ?thesis by (rule that)
  qed
  then have len: "length ids = length s"
    and idx: "\<And>i. i < length s \<Longrightarrow> str_index chars (s ! i) = Inr (ids ! i)"
    by (simp_all add: string_to_ids_Inr)
  have "ids ! i < length chars \<and> chars ! (ids ! i) = s ! i \<and> (\<forall>j<ids ! i. chars ! j \<noteq> s ! i)"
    if "i < length s" for i
    using idx [OF that] by (simp add: str_index_Inr)
  with ids len
  show "\<exists>ids. string_to_ids s chars = Inr ids \<and> length ids = length s \<and>
         (\<forall>i<length s. ids ! i < length chars \<and> chars ! (ids ! i) = s ! i \<and>
            (\<forall>j<ids ! i. chars ! j \<noteq> s ! i))"
    by blast
next
  show "string_to_ids ''BTTTXXVVETE'' POSSIBLE_CHARS = Inr [0, 4, 4, 4, 6, 6, 5, 5, 1, 4, 1]"
    by (simp add: POSSIBLE_CHARS_def)
qed

theorem string_to_ids_alphabet_index_witness:
  "set ''BTX'' \<subseteq> set POSSIBLE_CHARS \<and>
   (\<exists>ids. string_to_ids ''BTX'' POSSIBLE_CHARS = Inr ids \<and> length ids = 3 \<and>
      (\<forall>i<3. POSSIBLE_CHARS ! (ids ! i) = ''BTX'' ! i))"
proof -
  have h: "set ''BTX'' \<subseteq> set POSSIBLE_CHARS" by (simp add: POSSIBLE_CHARS_def)
  show ?thesis
    using h string_to_ids_alphabet_index [of "''BTX''" POSSIBLE_CHARS] by auto
qed

text \<open>
  C5: \<open>string_to_ids\<close> fails exactly when some symbol of the input is absent from the
  alphabet; the failure is the \<^verbatim>\<open>ValueError\<close> of \<^verbatim>\<open>str.index\<close> (the notebook's form of the
  unknown-symbol error), it is raised whatever follows the unknown symbol, and a returned
  sequence means that every symbol was in the alphabet.
\<close>

theorem string_to_ids_unknown_symbol:
  "(string_to_ids s chars = Inl ValueError \<longleftrightarrow> (\<exists>c\<in>set s. c \<notin> set chars)) \<and>
   (\<forall>e. string_to_ids s chars = Inl e \<longrightarrow> e = ValueError) \<and>
   (\<forall>ids. string_to_ids s chars = Inr ids \<longrightarrow> set s \<subseteq> set chars) \<and>
   (\<forall>pre c rest. s = pre @ c # rest \<and> c \<notin> set chars \<longrightarrow>
      string_to_ids s chars = Inl ValueError)"
proof (intro conjI allI impI)
  show "string_to_ids s chars = Inl ValueError \<longleftrightarrow> (\<exists>c\<in>set s. c \<notin> set chars)"
    by (auto simp: string_to_ids_Inl)
next
  fix e assume "string_to_ids s chars = Inl e"
  then show "e = ValueError" by (simp add: string_to_ids_Inl)
next
  fix ids assume "string_to_ids s chars = Inr ids"
  then have "string_to_ids s chars \<noteq> Inl ValueError" by simp
  then show "set s \<subseteq> set chars" by (simp add: string_to_ids_Inl)
next
  fix pre c rest assume "s = pre @ c # rest \<and> c \<notin> set chars"
  then show "string_to_ids s chars = Inl ValueError"
    by (auto simp: string_to_ids_Inl)
qed

theorem string_to_ids_unknown_symbol_witness:
  "string_to_ids ''BQT'' POSSIBLE_CHARS = Inl ValueError \<and>
   (\<exists>c\<in>set ''BQT''. c \<notin> set POSSIBLE_CHARS) \<and>
   string_to_ids ''BT'' POSSIBLE_CHARS = Inr [0, 4] \<and> set ''BT'' \<subseteq> set POSSIBLE_CHARS"
proof -
  have a: "string_to_ids ''BT'' POSSIBLE_CHARS = Inr [0, 4]"
    by (simp add: POSSIBLE_CHARS_def)
  have b: "''BQT'' = ''B'' @ CHR ''Q'' # ''T'' \<and> CHR ''Q'' \<notin> set POSSIBLE_CHARS"
    by (simp add: POSSIBLE_CHARS_def)
  show ?thesis
    using a b string_to_ids_unknown_symbol [of "''BQT''" POSSIBLE_CHARS]
      string_to_ids_unknown_symbol [of "''BT''" POSSIBLE_CHARS]
    by blast
qed

section \<open>The generator\<close>
lemma randint_Inr:
  "randint n r = Inr (i, r') \<longleftrightarrow> 0 < n \<and> i = shd r mod n \<and> r' = stl r"
  by (auto simp: randint_def)

lemma generate_loop_derives:
  assumes "generate_loop g st out r = Some y"
  shows "\<forall>s r'. y = Inr (s, r') \<longrightarrow> (\<exists>w. s = concat out @ w \<and> derives g st w)"
  using assms
proof (induction g st out r y rule: generate_loop.raw_induct [rotated 1, consumes 1])
  case (1 f g state out r y)
  show ?case
  proof (cases state)
    case None
    with 1(2) show ?thesis by (auto intro: derives.terminal)
  next
    case (Some st)
    show ?thesis
    proof (intro allI impI)
      fix s r' assume y: "y = Inr (s, r')"
      from 1(2) Some y have len: "st < length g"
        by (auto split: if_splits)
      from 1(2) Some y len obtain index r1 where
        ri: "randint (length (g ! st)) r = Inr (index, r1)"
        by (cases "randint (length (g ! st)) r") auto
      then have "index < length (g ! st)" by (simp add: randint_Inr)
      then have mem: "g ! st ! index \<in> set (g ! st)" by simp
      obtain p st' where tr: "g ! st ! index = (p, st')" by (cases "g ! st ! index")
      show "\<exists>w. s = concat out @ w \<and> derives g state w"
      proof (cases p)
        case (Lit a)
        with 1(2) Some y len ri tr have "f g st' (out @ [a]) r1 = Some (Inr (s, r'))"
          by simp
        from 1(1) [OF this] obtain w where "s = concat (out @ [a]) @ w" "derives g st' w"
          by blast
        with Some len mem tr Lit show ?thesis
          by (auto intro: derives.literal)
      next
        case (Sub g')
        with 1(2) Some y len ri tr obtain res where
          sub: "f g' (Some 0) [] r1 = Some res" and
          rest: "(case res of Inl e \<Rightarrow> Some (Inl e)
                  | Inr (u, r2) \<Rightarrow> f g st' (out @ [u]) r2) = Some (Inr (s, r'))"
          by (auto simp: bind_eq_Some_conv)
        from rest obtain u r2 where res: "res = Inr (u, r2)"
          and cont: "f g st' (out @ [u]) r2 = Some (Inr (s, r'))"
          by (cases res) auto
        from 1(1) [OF sub] res have du: "derives g' (Some 0) u" by auto
        from 1(1) [OF cont] obtain w where "s = concat (out @ [u]) @ w" "derives g st' w"
          by blast
        with Some len mem tr Sub du show ?thesis
          by (auto intro: derives.nested)
      qed
    qed
  qed
qed

lemma below_7: "(st::nat) < 7 \<Longrightarrow> st = 0 \<or> st = 1 \<or> st = 2 \<or> st = 3 \<or> st = 4 \<or> st = 5 \<or> st = 6"
  by arith

lemma default_transitions:
  assumes "st < length default_reber_grammar" "t \<in> set (default_reber_grammar ! st)"
  shows "(st, t) \<in> set
    [(0, Lit ''B'', Some 1),
     (1, Lit ''T'', Some 2), (1, Lit ''P'', Some 3),
     (2, Lit ''S'', Some 2), (2, Lit ''X'', Some 4),
     (3, Lit ''T'', Some 3), (3, Lit ''V'', Some 5),
     (4, Lit ''X'', Some 3), (4, Lit ''S'', Some 6),
     (5, Lit ''P'', Some 4), (5, Lit ''V'', Some 6),
     (6, Lit ''E'', None)]"
proof -
  from assms(1) have "st < 7" by (simp add: default_reber_grammar_def)
  from below_7 [OF this] assms(2) show ?thesis
    by (elim disjE; simp add: default_reber_grammar_def)
qed

lemma embedded_transitions:
  assumes "st < length embedded_reber_grammar" "t \<in> set (embedded_reber_grammar ! st)"
  shows "(st, t) \<in> set
    [(0, Lit ''B'', Some 1),
     (1, Lit ''T'', Some 2), (1, Lit ''P'', Some 3),
     (2, Sub default_reber_grammar, Some 4),
     (3, Sub default_reber_grammar, Some 5),
     (4, Lit ''T'', Some 6),
     (5, Lit ''P'', Some 6),
     (6, Lit ''E'', None)]"
proof -
  from assms(1) have "st < 7" by (simp add: embedded_reber_grammar_def)
  from below_7 [OF this] assms(2) show ?thesis
    by (elim disjE; simp add: embedded_reber_grammar_def)
qed

lemma derives_None: "derives g None w \<Longrightarrow> w = []"
  by (erule derives.cases) auto

lemma derives_default_run_forward:
  "derives g st w \<Longrightarrow> g = default_reber_grammar \<Longrightarrow> run_forward g st w"
proof (induction rule: derives.induct)
  case (terminal g)
  then show ?case by simp
next
  case (literal st g a st' w)
  from literal.prems literal.hyps(1,2)
  have "(st, Lit a, st') \<in> set
    [(0, Lit ''B'', Some 1),
     (1, Lit ''T'', Some 2), (1, Lit ''P'', Some 3),
     (2, Lit ''S'', Some 2), (2, Lit ''X'', Some 4),
     (3, Lit ''T'', Some 3), (3, Lit ''V'', Some 5),
     (4, Lit ''X'', Some 3), (4, Lit ''S'', Some 6),
     (5, Lit ''P'', Some 4), (5, Lit ''V'', Some 6),
     (6, Lit ''E'', None)]"
    by (simp only: default_transitions)
  with literal.prems literal.IH show ?case
    by (auto simp: default_reber_grammar_def)
next
  case (nested st g g' st' u w)
  from nested.prems nested.hyps(1,2)
  have False by (auto dest: default_transitions)
  then show ?case ..
qed

lemma derives_stock_symbols:
  "derives g st w \<Longrightarrow> stock g \<Longrightarrow> set w \<subseteq> set POSSIBLE_CHARS"
proof (induction rule: derives.induct)
  case (terminal g)
  then show ?case by simp
next
  case (literal st g a st' w)
  from literal.prems literal.hyps(1,2) have "set a \<subseteq> set POSSIBLE_CHARS"
    by (auto simp: stock_def POSSIBLE_CHARS_def dest!: default_transitions embedded_transitions)
  with literal show ?case by simp
next
  case (nested st g g' st' u w)
  from nested.prems nested.hyps(1,2) have "stock g'"
    by (auto simp: stock_def dest!: default_transitions embedded_transitions)
  with nested show ?case by simp
qed

lemma derives_stock_first:
  assumes "derives g (Some 0) w" "stock g"
  shows "\<exists>w'. w = CHR ''B'' # w'"
proof -
  from assms(2) have "g ! 0 = [(Lit ''B'', Some 1)]"
    by (auto simp: stock_def default_reber_grammar_def embedded_reber_grammar_def)
  with assms(1) show ?thesis
    by (cases rule: derives.cases) auto
qed

lemma derives_stock_last:
  "derives g st w \<Longrightarrow> stock g \<Longrightarrow> st \<noteq> None \<Longrightarrow> w \<noteq> [] \<and> last w = CHR ''E''"
proof (induction rule: derives.induct)
  case (terminal g)
  then show ?case by simp
next
  case (literal st g a st' w)
  show ?case
  proof (cases st')
    case None
    with literal.hyps(3) have "w = []" by (simp add: derives_None)
    moreover from None literal.prems(1) literal.hyps(1,2) have "a = ''E''"
      by (auto simp: stock_def dest!: default_transitions embedded_transitions)
    ultimately show ?thesis by simp
  next
    case (Some k)
    with literal show ?thesis by simp
  qed
next
  case (nested st g g' st' u w)
  from nested.prems(1) nested.hyps(1,2) have "st' \<noteq> None"
    by (auto simp: stock_def dest!: default_transitions embedded_transitions)
  with nested show ?case by simp
qed

lemma fair_sdrop: "fair r \<Longrightarrow> fair (sdrop m r)"
  unfolding fair_def
proof
  fix n assume a: "\<forall>n. \<exists>k\<ge>n. odd (r !! k) \<and> odd (r !! Suc k)"
  then obtain k where k: "k \<ge> n + m" "odd (r !! k)" "odd (r !! Suc k)" by blast
  then have "k - m \<ge> n" "m + (k - m) = k" "m + Suc (k - m) = Suc k" by simp_all
  with k show "\<exists>k\<ge>n. odd (sdrop m r !! k) \<and> odd (sdrop m r !! Suc k)"
    by (metis sdrop_snth)
qed

lemma fair_pair: "fair r \<Longrightarrow> \<exists>k. odd (r !! k) \<and> odd (r !! Suc k)"
  unfolding fair_def by blast

lemma generate_loop_None: "generate_loop g None out r = Some (Inr (concat out, r))"
  by (subst generate_loop.simps) simp

lemma generate_loop_Lit:
  assumes "st < length g" "g ! st \<noteq> []"
    and "g ! st ! (shd r mod length (g ! st)) = (Lit a, st')"
  shows "generate_loop g (Some st) out r = generate_loop g st' (out @ [a]) (stl r)"
  using assms by (subst generate_loop.simps) (simp add: randint_def)

lemma generate_loop_Sub:
  assumes "st < length g" "g ! st \<noteq> []"
    and "g ! st ! (shd r mod length (g ! st)) = (Sub g', st')"
    and "generate_loop g' (Some 0) [] (stl r) = Some (Inr (u, r2))"
  shows "generate_loop g (Some st) out r = generate_loop g st' (out @ [u]) r2"
  using assms by (subst generate_loop.simps) (simp add: randint_def)

lemma mod_Suc_Suc_0: "n mod Suc (Suc 0) = (if even n then 0 else Suc 0)"
  by (simp add: numeral_2_eq_2 [symmetric] odd_iff_mod_2_eq_one)

lemma default_step:
  "generate_loop default_reber_grammar (Some 0) out r =
     generate_loop default_reber_grammar (Some 1) (out @ [''B'']) (stl r)"
  "generate_loop default_reber_grammar (Some 1) out r =
     (if even (shd r) then generate_loop default_reber_grammar (Some 2) (out @ [''T'']) (stl r)
      else generate_loop default_reber_grammar (Some 3) (out @ [''P'']) (stl r))"
  "generate_loop default_reber_grammar (Some 2) out r =
     (if even (shd r) then generate_loop default_reber_grammar (Some 2) (out @ [''S'']) (stl r)
      else generate_loop default_reber_grammar (Some 4) (out @ [''X'']) (stl r))"
  "generate_loop default_reber_grammar (Some 3) out r =
     (if even (shd r) then generate_loop default_reber_grammar (Some 3) (out @ [''T'']) (stl r)
      else generate_loop default_reber_grammar (Some 5) (out @ [''V'']) (stl r))"
  "generate_loop default_reber_grammar (Some 4) out r =
     (if even (shd r) then generate_loop default_reber_grammar (Some 3) (out @ [''X'']) (stl r)
      else generate_loop default_reber_grammar (Some 6) (out @ [''S'']) (stl r))"
  "generate_loop default_reber_grammar (Some 5) out r =
     (if even (shd r) then generate_loop default_reber_grammar (Some 4) (out @ [''P'']) (stl r)
      else generate_loop default_reber_grammar (Some 6) (out @ [''V'']) (stl r))"
  "generate_loop default_reber_grammar (Some 6) out r = Some (Inr (concat out @ ''E'', stl r))"
  by (subst generate_loop.simps,
      simp add: default_reber_grammar_def randint_def generate_loop_None mod_Suc_Suc_0)+

lemma default_state_6:
  "\<exists>s m. generate_loop default_reber_grammar (Some 6) out r = Some (Inr (s, sdrop (Suc m) r))"
  by (rule exI [of _ "concat out @ ''E''"], rule exI [of _ 0]) (simp add: default_step)

lemma sdrop_stl_ex:
  "\<exists>s m. x = Some (Inr (s, sdrop (Suc m) (stl r))) \<Longrightarrow> \<exists>s m. x = Some (Inr (s, sdrop (Suc m) r))"
proof -
  assume "\<exists>s m. x = Some (Inr (s, sdrop (Suc m) (stl r)))"
  then obtain s m where "x = Some (Inr (s, sdrop (Suc m) (stl r)))" by blast
  then have "x = Some (Inr (s, sdrop (Suc (Suc m)) r))" by simp
  then show ?thesis by blast
qed

lemma default_terminates_inner:
  assumes "odd (r !! k)" "odd (r !! Suc k)" "st \<in> {2, 3, 4, 5}"
  shows "\<exists>s m. generate_loop default_reber_grammar (Some st) out r = Some (Inr (s, sdrop (Suc m) r))"
  using assms
proof (induction k arbitrary: r st out)
  case 0
  then have o: "odd (shd r)" "odd (shd (stl r))" by simp_all
  have six: "\<exists>s m. generate_loop default_reber_grammar (Some 6) out' (stl r) =
      Some (Inr (s, sdrop (Suc m) r))" for out'
    by (rule sdrop_stl_ex) (rule default_state_6)
  have six': "\<exists>s m. generate_loop default_reber_grammar (Some 6) out' (stl (stl r)) =
      Some (Inr (s, sdrop (Suc m) r))" for out'
    by (rule sdrop_stl_ex, rule sdrop_stl_ex) (rule default_state_6)
  from 0(3) consider "st = 2" | "st = 3" | "st = 4" | "st = 5" by auto
  then show ?case
  proof cases
    case 1
    with o six' show ?thesis by (simp add: default_step)
  next
    case 2
    with o six' show ?thesis by (simp add: default_step)
  next
    case 3
    with o six show ?thesis by (simp add: default_step)
  next
    case 4
    with o six show ?thesis by (simp add: default_step)
  qed
next
  case (Suc k)
  then have o: "odd (stl r !! k)" "odd (stl r !! Suc k)" by simp_all
  have ih: "\<exists>s m. generate_loop default_reber_grammar (Some st') out' (stl r) =
      Some (Inr (s, sdrop (Suc m) r))" if "st' \<in> {2, 3, 4, 5}" for st' out'
    by (rule sdrop_stl_ex) (rule Suc.IH [OF o that])
  have six: "\<exists>s m. generate_loop default_reber_grammar (Some 6) out' (stl r) =
      Some (Inr (s, sdrop (Suc m) r))" for out'
    by (rule sdrop_stl_ex) (rule default_state_6)
  from Suc.prems(3) consider "st = 2" | "st = 3" | "st = 4" | "st = 5" by auto
  then show ?case
  proof cases
    case 1
    with ih [of 2] ih [of 4] show ?thesis by (simp add: default_step(3))
  next
    case 2
    with ih [of 3] ih [of 5] show ?thesis by (simp add: default_step(4))
  next
    case 3
    with ih [of 3] six show ?thesis by (simp add: default_step(5))
  next
    case 4
    with ih [of 4] six show ?thesis by (simp add: default_step(6))
  qed
qed

lemma default_terminates:
  assumes "fair r"
  shows "\<exists>s m. generate_string default_reber_grammar r = Some (Inr (s, sdrop (Suc m) r))"
proof -
  from fair_pair [OF fair_sdrop [OF assms, of 2]]
  obtain k where k: "odd (stl (stl r) !! k)" "odd (stl (stl r) !! Suc k)"
    by (auto simp: numeral_2_eq_2)
  have "\<exists>s m. generate_loop default_reber_grammar (Some st) out (stl (stl r)) =
      Some (Inr (s, sdrop (Suc m) r))" if "st \<in> {2, 3, 4, 5}" for st out
    by (rule sdrop_stl_ex, rule sdrop_stl_ex) (rule default_terminates_inner [OF k that])
  moreover have "generate_string default_reber_grammar r =
      (if even (shd (stl r))
       then generate_loop default_reber_grammar (Some 2) [''B'', ''T''] (stl (stl r))
       else generate_loop default_reber_grammar (Some 3) [''B'', ''P''] (stl (stl r)))"
    unfolding generate_string_def default_step(1) default_step(2) by simp
  ultimately show ?thesis by simp
qed

lemma embedded_step:
  "generate_loop embedded_reber_grammar (Some 0) out r =
     generate_loop embedded_reber_grammar (Some 1) (out @ [''B'']) (stl r)"
  "generate_loop embedded_reber_grammar (Some 1) out r =
     (if even (shd r) then generate_loop embedded_reber_grammar (Some 2) (out @ [''T'']) (stl r)
      else generate_loop embedded_reber_grammar (Some 3) (out @ [''P'']) (stl r))"
  "generate_loop embedded_reber_grammar (Some 4) out r =
     generate_loop embedded_reber_grammar (Some 6) (out @ [''T'']) (stl r)"
  "generate_loop embedded_reber_grammar (Some 5) out r =
     generate_loop embedded_reber_grammar (Some 6) (out @ [''P'']) (stl r)"
  "generate_loop embedded_reber_grammar (Some 6) out r = Some (Inr (concat out @ ''E'', stl r))"
  by (subst generate_loop.simps,
      simp add: embedded_reber_grammar_def randint_def generate_loop_None mod_Suc_Suc_0)+

lemma embedded_sub:
  assumes "generate_string default_reber_grammar (stl r) = Some (Inr (u, r2))"
  shows "generate_loop embedded_reber_grammar (Some 2) out r =
           generate_loop embedded_reber_grammar (Some 4) (out @ [u]) r2"
    and "generate_loop embedded_reber_grammar (Some 3) out r =
           generate_loop embedded_reber_grammar (Some 5) (out @ [u]) r2"
proof -
  have sub: "generate_loop default_reber_grammar (Some 0) [] (stl r) = Some (Inr (u, r2))"
    using assms by (simp add: generate_string_def)
  show "generate_loop embedded_reber_grammar (Some 2) out r =
           generate_loop embedded_reber_grammar (Some 4) (out @ [u]) r2"
    by (rule generate_loop_Sub [OF _ _ _ sub]) (simp_all add: embedded_reber_grammar_def)
  show "generate_loop embedded_reber_grammar (Some 3) out r =
           generate_loop embedded_reber_grammar (Some 5) (out @ [u]) r2"
    by (rule generate_loop_Sub [OF _ _ _ sub]) (simp_all add: embedded_reber_grammar_def)
qed

lemma embedded_closed_form:
  assumes "generate_string default_reber_grammar (stl (stl (stl r))) = Some (Inr (u, r2))"
  shows "generate_string embedded_reber_grammar r =
     Some (Inr (''B'' @ (if even (shd (stl r)) then ''T'' else ''P'') @ u @
                (if even (shd (stl r)) then ''T'' else ''P'') @ ''E'', stl (stl r2)))"
proof (cases "even (shd (stl r))")
  case True
  have "generate_string embedded_reber_grammar r =
      generate_loop embedded_reber_grammar (Some 2) [''B'', ''T''] (stl (stl r))"
    unfolding generate_string_def embedded_step(1) embedded_step(2) using True by simp
  also have "\<dots> = generate_loop embedded_reber_grammar (Some 4) [''B'', ''T'', u] r2"
    using embedded_sub(1) [OF assms] by simp
  also have "\<dots> = Some (Inr (''B'' @ ''T'' @ u @ ''T'' @ ''E'', stl (stl r2)))"
    unfolding embedded_step(3) embedded_step(5) by simp
  finally show ?thesis using True by simp
next
  case False
  have "generate_string embedded_reber_grammar r =
      generate_loop embedded_reber_grammar (Some 3) [''B'', ''P''] (stl (stl r))"
    unfolding generate_string_def embedded_step(1) embedded_step(2) using False by simp
  also have "\<dots> = generate_loop embedded_reber_grammar (Some 5) [''B'', ''P'', u] r2"
    using embedded_sub(2) [OF assms] by simp
  also have "\<dots> = Some (Inr (''B'' @ ''P'' @ u @ ''P'' @ ''E'', stl (stl r2)))"
    unfolding embedded_step(4) embedded_step(5) by simp
  finally show ?thesis using False by simp
qed

lemma embedded_terminates:
  assumes "fair r"
  shows "\<exists>s m. generate_string embedded_reber_grammar r = Some (Inr (s, sdrop m r))"
proof -
  have "fair (stl (stl (stl r)))"
    using fair_sdrop [OF assms, of 3] by (simp add: numeral_3_eq_3)
  from default_terminates [OF this] obtain u m where
    "generate_string default_reber_grammar (stl (stl (stl r))) =
       Some (Inr (u, sdrop (Suc m) (stl (stl (stl r)))))"
    by blast
  from embedded_closed_form [OF this]
  have "\<exists>s. generate_string embedded_reber_grammar r = Some (Inr (s, sdrop (m + 6) r))"
    by (simp add: eval_nat_numeral)
  then show ?thesis by blast
qed

lemma generate_corrupted_string_Inr:
  "generate_corrupted_string g chars r = Some (Inr (s, r')) \<longleftrightarrow>
     (\<exists>good r1. generate_string g r = Some (Inr (good, r1)) \<and> good \<noteq> [] \<and>
        set chars - {good ! (shd r1 mod length good)} \<noteq> {} \<and>
        s = take (shd r1 mod length good) good @
            [sorted_list_of_set (set chars - {good ! (shd r1 mod length good)}) !
               (shd (stl r1) mod
                  length (sorted_list_of_set (set chars - {good ! (shd r1 mod length good)})))] @
            drop (Suc (shd r1 mod length good)) good \<and>
        r' = stl (stl r1))"
  by (auto simp: generate_corrupted_string_def randint_def choice_def Let_def
      split: option.splits sum.splits prod.splits if_splits)

lemmas default_steps = default_step default_step [unfolded One_nat_def]
lemmas embedded_steps = embedded_step embedded_step [unfolded One_nat_def]

lemma generate_string_derives:
  "generate_string g r = Some (Inr (s, r')) \<Longrightarrow> derives g (Some 0) s"
  using generate_loop_derives [of g "Some 0" "[]" r "Inr (s, r')"]
  by (simp add: generate_string_def)

text \<open>
  C1: every string that \<open>generate_string\<close> returns on the default Reber grammar is a
  derivation of that grammar from state 0, and running it forward through the transition
  table from state 0 ends at the terminal sentinel with no symbol left over.
\<close>

theorem generate_string_default_valid:
  assumes "generate_string default_reber_grammar r = Some (Inr (s, r'))"
  shows "derives default_reber_grammar (Some 0) s \<and>
         run_forward default_reber_grammar (Some 0) s"
proof -
  from assms have "derives default_reber_grammar (Some 0) s"
    by (rule generate_string_derives)
  then show ?thesis by (simp add: derives_default_run_forward)
qed

lemma draws_BTSXSE:
  "generate_string default_reber_grammar (0 ## 0 ## 0 ## sconst 1) =
     Some (Inr (''BTSXSE'', sconst 1))"
  by (simp add: generate_string_def default_steps)

theorem generate_string_default_valid_witness:
  "generate_string default_reber_grammar (0 ## 0 ## 0 ## sconst 1) =
     Some (Inr (''BTSXSE'', sconst 1)) \<and>
   derives default_reber_grammar (Some 0) ''BTSXSE'' \<and>
   run_forward default_reber_grammar (Some 0) ''BTSXSE''"
  using draws_BTSXSE generate_string_default_valid [OF draws_BTSXSE] by simp

lemma generate_string_stock:
  assumes "stock g" "generate_string g r = Some (Inr (s, r'))"
  shows "s \<noteq> []" "hd s = CHR ''B''" "last s = CHR ''E''" "set s \<subseteq> set POSSIBLE_CHARS"
proof -
  from assms(2) have d: "derives g (Some 0) s" by (rule generate_string_derives)
  from derives_stock_first [OF d assms(1)] show "hd s = CHR ''B''" by auto
  from derives_stock_last [OF d assms(1)] show "s \<noteq> []" "last s = CHR ''E''" by simp_all
  from derives_stock_symbols [OF d assms(1)] show "set s \<subseteq> set POSSIBLE_CHARS" .
qed

text \<open>
  C10: every string that \<open>generate_string\<close> returns on the default or the embedded Reber
  grammar is non-empty, begins with \<open>B\<close> and ends with \<open>E\<close>; its length is at least 1, so
  the position draw of the corrupter on it does not fail and yields a position of the string.
\<close>

theorem generate_string_stock_shape:
  assumes "g = default_reber_grammar \<or> g = embedded_reber_grammar"
    and "generate_string g r = Some (Inr (s, r1))"
  shows "s \<noteq> [] \<and> hd s = CHR ''B'' \<and> last s = CHR ''E'' \<and> 1 \<le> length s \<and>
         (\<exists>i r2. randint (length s) r1 = Inr (i, r2) \<and> i < length s)"
proof -
  from assms(1) have "stock g" by (simp add: stock_def)
  from generate_string_stock [OF this assms(2)]
  have "s \<noteq> []" "hd s = CHR ''B''" "last s = CHR ''E''" by simp_all
  moreover from \<open>s \<noteq> []\<close> have "0 < length s" by simp
  moreover from \<open>0 < length s\<close>
  have "randint (length s) r1 = Inr (shd r1 mod length s, stl r1)"
    by (simp add: randint_def)
  ultimately show ?thesis
    by (simp add: Suc_le_eq)
qed

lemma draws_BPBPVVEPE:
  "generate_string embedded_reber_grammar (sconst 1) = Some (Inr (''BPBPVVEPE'', sconst 1))"
proof -
  have "generate_string default_reber_grammar (stl (stl (stl (sconst 1)))) =
      Some (Inr (''BPVVE'', sconst 1))"
    by (simp add: generate_string_def default_steps)
  from embedded_closed_form [OF this] show ?thesis by simp
qed

theorem generate_string_stock_shape_witness:
  "generate_string embedded_reber_grammar (sconst 1) = Some (Inr (''BPBPVVEPE'', sconst 1)) \<and>
   hd ''BPBPVVEPE'' = CHR ''B'' \<and> last ''BPBPVVEPE'' = CHR ''E'' \<and>
   (\<exists>i r2. randint (length ''BPBPVVEPE'') (sconst 1) = Inr (i, r2) \<and> i < length ''BPBPVVEPE'')"
  using draws_BPBPVVEPE
    generate_string_stock_shape [of embedded_reber_grammar "sconst 1" "''BPBPVVEPE''" "sconst 1"]
  by simp

section \<open>The corrupter\<close>

lemma candidates_code:
  "sorted_list_of_set (set chars - {c}) = sort (remdups (removeAll c chars))"
  by (simp flip: sorted_list_of_set_sort_remdups)

lemma candidates_member:
  assumes "set chars - {c} \<noteq> {}"
  shows "sorted_list_of_set (set chars - {c}) !
           (n mod length (sorted_list_of_set (set chars - {c}))) \<in> set chars - {c}"
proof -
  let ?xs = "sorted_list_of_set (set chars - {c})"
  have fin: "finite (set chars - {c})" by simp
  with assms have "?xs \<noteq> []" by (simp add: sorted_list_of_set_eq_Nil_iff)
  then have "0 < length ?xs" by (rule length_greater_0_conv [THEN iffD2])
  then have "n mod length ?xs < length ?xs" by (rule mod_less_divisor)
  then have "?xs ! (n mod length ?xs) \<in> set ?xs" by (rule nth_mem)
  with fin show ?thesis by (simp only: set_sorted_list_of_set)
qed

lemma one_flip:
  assumes "i < length good"
  shows "length (take i good @ [c] @ drop (Suc i) good) = length good"
    and "(take i good @ [c] @ drop (Suc i) good) ! j = (if j = i then c else good ! j)"
proof -
  have eq: "take i good @ [c] @ drop (Suc i) good = good[i := c]"
    using assms by (simp add: upd_conv_take_nth_drop)
  show "length (take i good @ [c] @ drop (Suc i) good) = length good"
    unfolding eq by simp
  show "(take i good @ [c] @ drop (Suc i) good) ! j = (if j = i then c else good ! j)"
    unfolding eq using assms by (simp add: nth_list_update)
qed

text \<open>
  C2: an output of \<open>generate_corrupted_string\<close> has the length of the string that
  \<open>generate_string\<close> returned for it (at least 1) and differs from it at exactly one
  position; the symbol there is a member of the alphabet other than the original symbol,
  and every other position is unchanged.
\<close>

theorem generate_corrupted_string_one_flip:
  assumes "generate_corrupted_string g chars r = Some (Inr (s, r'))"
  shows "\<exists>good r1 i. generate_string g r = Some (Inr (good, r1)) \<and>
           length s = length good \<and> 1 \<le> length good \<and> i < length good \<and>
           s ! i \<in> set chars \<and> s ! i \<noteq> good ! i \<and>
           (\<forall>j<length good. j \<noteq> i \<longrightarrow> s ! j = good ! j) \<and>
           (\<forall>j<length good. s ! j \<noteq> good ! j \<longleftrightarrow> j = i)"
proof -
  from assms obtain good r1 where
    gen: "generate_string g r = Some (Inr (good, r1))" and ne: "good \<noteq> []" and
    cands: "set chars - {good ! (shd r1 mod length good)} \<noteq> {}" and
    s: "s = take (shd r1 mod length good) good @
            [sorted_list_of_set (set chars - {good ! (shd r1 mod length good)}) !
               (shd (stl r1) mod
                  length (sorted_list_of_set (set chars - {good ! (shd r1 mod length good)})))] @
            drop (Suc (shd r1 mod length good)) good"
    unfolding generate_corrupted_string_Inr by blast
  define i where "i = shd r1 mod length good"
  define c where "c = sorted_list_of_set (set chars - {good ! i}) !
      (shd (stl r1) mod length (sorted_list_of_set (set chars - {good ! i})))"
  from ne have i: "i < length good" by (simp add: i_def)
  from cands have c: "c \<in> set chars - {good ! i}"
    unfolding c_def i_def by (rule candidates_member)
  from s have s': "s = take i good @ [c] @ drop (Suc i) good"
    by (simp add: i_def c_def)
  have len: "length s = length good" unfolding s' by (rule one_flip(1) [OF i])
  have nth: "s ! j = (if j = i then c else good ! j)" for j
    unfolding s' by (rule one_flip(2) [OF i])
  from c have "s ! i \<in> set chars" "s ! i \<noteq> good ! i" by (simp_all add: nth)
  moreover have "\<forall>j<length good. j \<noteq> i \<longrightarrow> s ! j = good ! j" by (simp add: nth)
  moreover have "\<forall>j<length good. s ! j \<noteq> good ! j \<longleftrightarrow> j = i"
    using c by (simp add: nth)
  moreover from i have "1 \<le> length good" by simp
  ultimately show ?thesis using gen len i by blast
qed

lemma draws_BEBPVVEPE:
  "generate_corrupted_string embedded_reber_grammar POSSIBLE_CHARS (sconst 1) =
     Some (Inr (''BEBPVVEPE'', sconst 1))"
proof -
  have "sorted_list_of_set (set POSSIBLE_CHARS - {CHR ''P''}) =
      sort (remdups (removeAll CHR ''P'' POSSIBLE_CHARS))"
    by (rule candidates_code)
  also have "\<dots> = ''BESTVX''"
    by (simp add: POSSIBLE_CHARS_def less_eq_char_def)
  finally show ?thesis
    by (simp add: generate_corrupted_string_def draws_BPBPVVEPE [unfolded One_nat_def]
        randint_def choice_def Let_def del: length_sorted_list_of_set)
      (simp add: POSSIBLE_CHARS_def)
qed

theorem generate_corrupted_string_one_flip_witness:
  "generate_corrupted_string embedded_reber_grammar POSSIBLE_CHARS (sconst 1) =
     Some (Inr (''BEBPVVEPE'', sconst 1)) \<and>
   (\<exists>good r1 i. generate_string embedded_reber_grammar (sconst 1) = Some (Inr (good, r1)) \<and>
      length ''BEBPVVEPE'' = length good \<and> i < length good \<and>
      ''BEBPVVEPE'' ! i \<in> set POSSIBLE_CHARS \<and> ''BEBPVVEPE'' ! i \<noteq> good ! i \<and>
      (\<forall>j<length good. ''BEBPVVEPE'' ! j \<noteq> good ! j \<longleftrightarrow> j = i))"
  using draws_BEBPVVEPE generate_corrupted_string_one_flip [OF draws_BEBPVVEPE]
  by blast

section \<open>Encoding generated strings\<close>

lemma string_to_ids_total:
  assumes "set s \<subseteq> set chars"
  shows "\<exists>ids. string_to_ids s chars = Inr ids \<and> length ids = length s"
proof (cases "string_to_ids s chars")
  case (Inl e)
  with assms show ?thesis by (simp add: string_to_ids_Inl)
next
  case (Inr ids)
  then have "length ids = length s" by (simp add: string_to_ids_Inr)
  with Inr show ?thesis by simp
qed

lemma generate_corrupted_string_stock_symbols:
  assumes "stock g" "generate_corrupted_string g POSSIBLE_CHARS r = Some (Inr (s, r'))"
  shows "set s \<subseteq> set POSSIBLE_CHARS"
proof -
  from assms(2) obtain good r1 c i where
    gen: "generate_string g r = Some (Inr (good, r1))" and
    cands: "set POSSIBLE_CHARS - {good ! i} \<noteq> {}" and
    c: "c = sorted_list_of_set (set POSSIBLE_CHARS - {good ! i}) !
          (shd (stl r1) mod length (sorted_list_of_set (set POSSIBLE_CHARS - {good ! i})))" and
    s: "s = take i good @ [c] @ drop (Suc i) good"
    unfolding generate_corrupted_string_Inr by blast
  from generate_string_stock(4) [OF assms(1) gen] have good: "set good \<subseteq> set POSSIBLE_CHARS" .
  from candidates_member [OF cands] c have "c \<in> set POSSIBLE_CHARS" by simp
  moreover have "set (take i good) \<subseteq> set good" "set (drop (Suc i) good) \<subseteq> set good"
    by (rule set_take_subset, rule set_drop_subset)
  ultimately show ?thesis using good unfolding s by auto
qed

text \<open>
  C9: every string that \<open>generate_string\<close> or \<open>generate_corrupted_string\<close> returns on one
  of the two grammars of the notebook, with the alphabet \<^verbatim>\<open>"BEPSTVX"\<close>, consists of symbols
  of the alphabet, so \<open>string_to_ids\<close> returns a sequence for it and never raises.
\<close>

theorem stock_strings_encodable:
  assumes "g = default_reber_grammar \<or> g = embedded_reber_grammar"
    and "generate_string g r = Some (Inr (s, r')) \<or>
         generate_corrupted_string g POSSIBLE_CHARS r = Some (Inr (s, r'))"
  shows "set s \<subseteq> set POSSIBLE_CHARS \<and>
         (\<exists>ids. string_to_ids s POSSIBLE_CHARS = Inr ids \<and> length ids = length s) \<and>
         (\<forall>e. string_to_ids s POSSIBLE_CHARS \<noteq> Inl e)"
proof -
  from assms(1) have st: "stock g" by (simp add: stock_def)
  from assms(2) have sub: "set s \<subseteq> set POSSIBLE_CHARS"
  proof
    assume "generate_string g r = Some (Inr (s, r'))"
    from generate_string_stock(4) [OF st this] show ?thesis .
  next
    assume "generate_corrupted_string g POSSIBLE_CHARS r = Some (Inr (s, r'))"
    from generate_corrupted_string_stock_symbols [OF st this] show ?thesis .
  qed
  moreover from string_to_ids_total [OF sub]
  have "\<exists>ids. string_to_ids s POSSIBLE_CHARS = Inr ids \<and> length ids = length s" .
  moreover from sub have "\<forall>e. string_to_ids s POSSIBLE_CHARS \<noteq> Inl e"
    by (simp add: string_to_ids_Inl)
  ultimately show ?thesis by blast
qed

theorem stock_strings_encodable_witness:
  "generate_corrupted_string embedded_reber_grammar POSSIBLE_CHARS (sconst 1) =
     Some (Inr (''BEBPVVEPE'', sconst 1)) \<and>
   set ''BEBPVVEPE'' \<subseteq> set POSSIBLE_CHARS \<and>
   string_to_ids ''BEBPVVEPE'' POSSIBLE_CHARS = Inr [0, 1, 0, 2, 5, 5, 1, 2, 1]"
proof -
  have "string_to_ids ''BEBPVVEPE'' POSSIBLE_CHARS = Inr [0, 1, 0, 2, 5, 5, 1, 2, 1]"
    by (simp add: POSSIBLE_CHARS_def)
  with draws_BEBPVVEPE
    stock_strings_encodable [of embedded_reber_grammar "sconst 1" "''BEBPVVEPE''" "sconst 1"]
  show ?thesis by simp
qed

section \<open>Nested grammars\<close>

text \<open>
  C8: at a transition whose production is a nested grammar, \<open>generate_string\<close> runs
  \<open>generate_string\<close> on that grammar (from its state 0 with an empty output, whatever the
  outer state and output are), appends the whole returned string as one piece to the
  output and goes on from the transition's next state; what is returned at the terminal
  sentinel is the concatenation of the output pieces in order.
\<close>

theorem generate_loop_nested_production:
  assumes "st < length g" and "randint (length (g ! st)) r = Inr (i, r1)"
    and "g ! st ! i = (Sub g', st')"
  shows "generate_loop g (Some st) out r =
           (case generate_string g' r1 of
              None \<Rightarrow> None
            | Some (Inl e) \<Rightarrow> Some (Inl e)
            | Some (Inr (u, r2)) \<Rightarrow> generate_loop g st' (out @ [u]) r2) \<and>
         (\<forall>s r'. generate_loop g (Some st) out r = Some (Inr (s, r')) \<longrightarrow>
            (\<exists>u r2 w. generate_string g' r1 = Some (Inr (u, r2)) \<and>
               derives g' (Some 0) u \<and>
               generate_loop g st' (out @ [u]) r2 = Some (Inr (s, r')) \<and>
               s = concat out @ u @ w)) \<and>
         generate_loop g None out r = Some (Inr (concat out, r))"
proof (intro conjI allI impI)
  show step: "generate_loop g (Some st) out r =
           (case generate_string g' r1 of
              None \<Rightarrow> None
            | Some (Inl e) \<Rightarrow> Some (Inl e)
            | Some (Inr (u, r2)) \<Rightarrow> generate_loop g st' (out @ [u]) r2)"
    using assms
    by (subst generate_loop.simps)
      (simp add: generate_string_def split: option.splits sum.splits)
  show "generate_loop g None out r = Some (Inr (concat out, r))"
    by (rule generate_loop_None)
  fix s r' assume res: "generate_loop g (Some st) out r = Some (Inr (s, r'))"
  with step obtain u r2 where
    sub: "generate_string g' r1 = Some (Inr (u, r2))" and
    cont: "generate_loop g st' (out @ [u]) r2 = Some (Inr (s, r'))"
    by (auto split: option.splits sum.splits)
  from sub have "derives g' (Some 0) u" by (rule generate_string_derives)
  moreover from generate_loop_derives [OF cont]
  obtain w where "s = concat (out @ [u]) @ w" by blast
  then have "s = concat out @ u @ w" by simp
  ultimately show "\<exists>u r2 w. generate_string g' r1 = Some (Inr (u, r2)) \<and>
               derives g' (Some 0) u \<and>
               generate_loop g st' (out @ [u]) r2 = Some (Inr (s, r')) \<and>
               s = concat out @ u @ w"
    using sub cont by blast
qed

lemma draws_BPVVE:
  "generate_string default_reber_grammar (sconst 1) = Some (Inr (''BPVVE'', sconst 1))"
  by (simp add: generate_string_def default_steps)

theorem generate_loop_nested_production_witness:
  "2 < length embedded_reber_grammar \<and>
   randint (length (embedded_reber_grammar ! 2)) (sconst 1) = Inr (0, sconst 1) \<and>
   embedded_reber_grammar ! 2 ! 0 = (Sub default_reber_grammar, Some 4) \<and>
   generate_string default_reber_grammar (sconst 1) = Some (Inr (''BPVVE'', sconst 1)) \<and>
   generate_loop embedded_reber_grammar (Some 2) [''B'', ''T''] (sconst 1) =
     generate_loop embedded_reber_grammar (Some 4) [''B'', ''T'', ''BPVVE''] (sconst 1) \<and>
   generate_loop embedded_reber_grammar (Some 4) [''B'', ''T'', ''BPVVE''] (sconst 1) =
     Some (Inr (''BTBPVVETE'', sconst 1))"
proof -
  have h1: "2 < length embedded_reber_grammar"
    by (simp add: embedded_reber_grammar_def)
  have h2: "randint (length (embedded_reber_grammar ! 2)) (sconst 1) = Inr (0, sconst 1)"
    by (simp add: embedded_reber_grammar_def randint_def)
  have h3: "embedded_reber_grammar ! 2 ! 0 = (Sub default_reber_grammar, Some 4)"
    by (simp add: embedded_reber_grammar_def)
  have e: "generate_loop embedded_reber_grammar (Some 4) [''B'', ''T'', ''BPVVE''] (sconst 1) =
      Some (Inr (''BTBPVVETE'', sconst 1))"
    by (simp add: embedded_steps)
  have "generate_loop embedded_reber_grammar (Some 2) [''B'', ''T''] (sconst 1) =
     generate_loop embedded_reber_grammar (Some 4) [''B'', ''T'', ''BPVVE''] (sconst 1)"
    using generate_loop_nested_production [OF h1 h2 h3, of "[''B'', ''T'']", THEN conjunct1]
    unfolding draws_BPVVE by simp
  then show ?thesis
    by (intro conjI) (rule h1 h2 h3 draws_BPVVE e | assumption)+
qed

section \<open>The dataset\<close>

lemma comprehension_length:
  "comprehension n f r = Some (Inr (xs, r')) \<Longrightarrow> length xs = n"
  by (induction n arbitrary: r xs)
    (auto split: option.splits sum.splits prod.splits)

lemma generate_dataset_Inr:
  assumes "generate_dataset n r = Some (Inr ((X, y), r'))"
  shows "length X = nat (n div 2) + nat (n - n div 2)"
    and "y = replicate (nat (n div 2)) [1] @ replicate (nat (n - n div 2)) [0]"
proof -
  from assms obtain good r1 bad where
    g: "comprehension (nat (n div 2)) (encoded (generate_string embedded_reber_grammar)) r =
          Some (Inr (good, r1))" and
    b: "comprehension (nat (n - n div 2))
          (encoded (generate_corrupted_string embedded_reber_grammar POSSIBLE_CHARS)) r1 =
          Some (Inr (bad, r'))" and
    X: "X = good @ bad" and
    y: "y = replicate (length good) [1] @ replicate (length bad) [0]"
    by (auto simp: generate_dataset_def split: option.splits sum.splits prod.splits)
  from comprehension_length [OF g] comprehension_length [OF b] X y
  show "length X = nat (n div 2) + nat (n - n div 2)"
    and "y = replicate (nat (n div 2)) [1] @ replicate (nat (n - n div 2)) [0]"
    by simp_all
qed

text \<open>
  C6, as stated, does not hold: for a negative size no error is raised. \<^verbatim>\<open>range\<close> of a
  negative number is empty, so \<^verbatim>\<open>generate_dataset(-1)\<close> returns the empty dataset.
\<close>

theorem generate_dataset_negative_counterexample:
  "generate_dataset (- 1) (sconst 0) = Some (Inr (([], []), sconst 0))"
  by (simp add: generate_dataset_def)

text \<open>
  C6, amended: for every negative size \<open>generate_dataset\<close> does no generation work (no
  draw is taken from the random source) and returns the empty dataset, without an error.
\<close>

theorem generate_dataset_negative:
  "n < 0 \<Longrightarrow> generate_dataset n r = Some (Inr (([], []), r))"
proof -
  assume "n < 0"
  then have "nat (n div 2) = 0" "nat (n - n div 2) = 0" by simp_all
  then show ?thesis by (simp add: generate_dataset_def)
qed

theorem generate_dataset_negative_witness:
  "(- 3 :: int) < 0 \<and> generate_dataset (- 3) (sconst 1) = Some (Inr (([], []), sconst 1))"
  using generate_dataset_negative [of "- 3" "sconst 1"] by simp

lemma stock_transition:
  assumes "stock g" "st < length g" "(p, st') \<in> set (g ! st)"
  shows "(\<forall>k. st' = Some k \<longrightarrow> k < length g) \<and> (\<forall>g'. p = Sub g' \<longrightarrow> stock g')"
proof -
  from assms(1) consider "g = default_reber_grammar" | "g = embedded_reber_grammar"
    by (auto simp: stock_def)
  then show ?thesis
  proof cases
    case 1
    have len: "length default_reber_grammar = 7" by (simp add: default_reber_grammar_def)
    from default_transitions [of st "(p, st')"] assms(2,3) 1 show ?thesis
      by (auto simp: len stock_def)
  next
    case 2
    have len: "length embedded_reber_grammar = 7" by (simp add: embedded_reber_grammar_def)
    from embedded_transitions [of st "(p, st')"] assms(2,3) 2 show ?thesis
      by (auto simp: len stock_def)
  qed
qed

lemma stock_state_nonempty:
  assumes "stock g" "st < length g"
  shows "g ! st \<noteq> []"
proof -
  from assms have "st < 7"
    by (auto simp: stock_def default_reber_grammar_def embedded_reber_grammar_def)
  from below_7 [OF this] assms(1) show ?thesis
    by (elim disjE; auto simp: stock_def default_reber_grammar_def embedded_reber_grammar_def)
qed

lemma generate_loop_stock_no_error:
  assumes "generate_loop g st out r = Some y"
  shows "stock g \<longrightarrow> (\<forall>k. st = Some k \<longrightarrow> k < length g) \<longrightarrow> (\<forall>e. y \<noteq> Inl e)"
  using assms
proof (induction g st out r y rule: generate_loop.raw_induct [rotated 1, consumes 1])
  case (1 f g state out r y)
  show ?case
  proof (intro impI allI)
    fix e assume stock: "stock g" and valid: "\<forall>k. state = Some k \<longrightarrow> k < length g"
    show "y \<noteq> Inl e"
    proof (cases state)
      case None
      with 1(2) show ?thesis by auto
    next
      case (Some st)
      with valid have len: "st < length g" by simp
      from stock_state_nonempty [OF stock len]
      have ri: "randint (length (g ! st)) r = Inr (shd r mod length (g ! st), stl r)"
        and index: "shd r mod length (g ! st) < length (g ! st)"
        by (simp_all add: randint_def)
      obtain p st' where tr: "g ! st ! (shd r mod length (g ! st)) = (p, st')"
        by (cases "g ! st ! (shd r mod length (g ! st))")
      from nth_mem [OF index] tr have "(p, st') \<in> set (g ! st)" by simp
      from stock_transition [OF stock len this]
      have valid': "\<forall>k. st' = Some k \<longrightarrow> k < length g" and sub: "\<forall>g'. p = Sub g' \<longrightarrow> stock g'"
        by simp_all
      show ?thesis
      proof (cases p)
        case (Lit a)
        with 1(2) Some len ri tr have "f g st' (out @ [a]) (stl r) = Some y" by simp
        from 1(1) [OF this] stock valid' show ?thesis by simp
      next
        case (Sub g')
        with sub have stock': "stock g'" by simp
        then have len': "0 < length g'"
          by (auto simp: stock_def default_reber_grammar_def embedded_reber_grammar_def)
        from 1(2) Some len ri tr Sub obtain res where
          s: "f g' (Some 0) [] (stl r) = Some res" and
          rest: "(case res of Inl e \<Rightarrow> Some (Inl e)
                  | Inr (u, r2) \<Rightarrow> f g st' (out @ [u]) r2) = Some y"
          by (auto simp: bind_eq_Some_conv)
        from 1(1) [OF s] stock' len' have "\<forall>e. res \<noteq> Inl e" by simp
        with rest obtain u r2 where "f g st' (out @ [u]) r2 = Some y"
          by (cases res) auto
        from 1(1) [OF this] stock valid' show ?thesis by simp
      qed
    qed
  qed
qed

lemma generate_string_stock_no_error:
  "stock g \<Longrightarrow> generate_string g r \<noteq> Some (Inl e)"
proof
  assume st: "stock g" and "generate_string g r = Some (Inl e)"
  then have "generate_loop g (Some 0) [] r = Some (Inl e)" by (simp add: generate_string_def)
  from generate_loop_stock_no_error [OF this] st show False
    by (auto simp: stock_def default_reber_grammar_def embedded_reber_grammar_def)
qed

lemma alphabet_candidates: "set POSSIBLE_CHARS - {c} \<noteq> {}"
proof -
  have "CHR ''B'' \<in> set POSSIBLE_CHARS" "CHR ''E'' \<in> set POSSIBLE_CHARS"
    by (simp_all add: POSSIBLE_CHARS_def)
  then show ?thesis by (cases "c = CHR ''B''") auto
qed

lemma generate_corrupted_string_stock_no_error:
  assumes "stock g"
  shows "generate_corrupted_string g POSSIBLE_CHARS r \<noteq> Some (Inl e)"
proof (cases "generate_string g r")
  case None
  then show ?thesis by (simp add: generate_corrupted_string_def)
next
  case (Some res)
  with generate_string_stock_no_error [OF assms, of r] obtain good r1 where
    gen: "generate_string g r = Some (Inr (good, r1))"
    by (cases res) auto
  from generate_string_stock(1) [OF assms gen] have ne: "good \<noteq> []" .
  have "sorted_list_of_set (set POSSIBLE_CHARS - {c}) \<noteq> []" for c
    using alphabet_candidates [of c] by (simp add: sorted_list_of_set_eq_Nil_iff)
  with gen ne show ?thesis
    by (simp add: generate_corrupted_string_def randint_def choice_def Let_def
        del: length_sorted_list_of_set)
qed

lemma stock_embedded: "stock embedded_reber_grammar"
  by (simp add: stock_def)

lemma generate_corrupted_string_terminates:
  assumes "fair r"
  shows "\<exists>s m. generate_corrupted_string embedded_reber_grammar POSSIBLE_CHARS r =
           Some (Inr (s, sdrop m r))"
proof -
  from embedded_terminates [OF assms] obtain good m where
    gen: "generate_string embedded_reber_grammar r = Some (Inr (good, sdrop m r))"
    by blast
  from generate_string_stock(1) [OF stock_embedded gen] have ne: "good \<noteq> []" .
  have "\<exists>s. generate_corrupted_string embedded_reber_grammar POSSIBLE_CHARS r =
      Some (Inr (s, stl (stl (sdrop m r))))"
    unfolding generate_corrupted_string_Inr using gen ne alphabet_candidates by blast
  then have "\<exists>s. generate_corrupted_string embedded_reber_grammar POSSIBLE_CHARS r =
      Some (Inr (s, sdrop (Suc (Suc m)) r))"
    by simp
  then show ?thesis by blast
qed

lemma encoded_generate_string_terminates:
  assumes "fair r"
  shows "\<exists>ids m. encoded (generate_string embedded_reber_grammar) r = Some (Inr (ids, sdrop m r))"
proof -
  from embedded_terminates [OF assms] obtain s m where
    gen: "generate_string embedded_reber_grammar r = Some (Inr (s, sdrop m r))"
    by blast
  from generate_string_stock(4) [OF stock_embedded gen]
  obtain ids where "string_to_ids s POSSIBLE_CHARS = Inr ids"
    using string_to_ids_total by blast
  with gen have "encoded (generate_string embedded_reber_grammar) r = Some (Inr (ids, sdrop m r))"
    by (simp add: encoded_def)
  then show ?thesis by blast
qed

lemma encoded_generate_corrupted_string_terminates:
  assumes "fair r"
  shows "\<exists>ids m. encoded (generate_corrupted_string embedded_reber_grammar POSSIBLE_CHARS) r =
           Some (Inr (ids, sdrop m r))"
proof -
  from generate_corrupted_string_terminates [OF assms] obtain s m where
    gen: "generate_corrupted_string embedded_reber_grammar POSSIBLE_CHARS r =
            Some (Inr (s, sdrop m r))"
    by blast
  from generate_corrupted_string_stock_symbols [OF stock_embedded gen]
  obtain ids where "string_to_ids s POSSIBLE_CHARS = Inr ids"
    using string_to_ids_total by blast
  with gen have "encoded (generate_corrupted_string embedded_reber_grammar POSSIBLE_CHARS) r =
      Some (Inr (ids, sdrop m r))"
    by (simp add: encoded_def)
  then show ?thesis by blast
qed

lemma comprehension_terminates:
  assumes f: "\<And>r. fair r \<Longrightarrow> \<exists>x m. f r = Some (Inr (x, sdrop m r))"
    and "fair r"
  shows "\<exists>xs m. comprehension n f r = Some (Inr (xs, sdrop m r))"
  using assms(2)
proof (induction n arbitrary: r)
  case 0
  have "comprehension 0 f r = Some (Inr ([], sdrop 0 r))" by simp
  then show ?case by blast
next
  case (Suc n)
  from f [OF Suc.prems] obtain x m where x: "f r = Some (Inr (x, sdrop m r))" by blast
  from Suc.IH [OF fair_sdrop [OF Suc.prems, of m]] obtain xs k where
    xs: "comprehension n f (sdrop m r) = Some (Inr (xs, sdrop k (sdrop m r)))"
    by blast
  from x xs have "comprehension (Suc n) f r = Some (Inr (x # xs, sdrop (m + k) r))"
    by simp
  then show ?case by blast
qed

lemma encoded_no_error:
  assumes "\<And>r e. f r \<noteq> Some (Inl e)"
    and "\<And>r s r'. f r = Some (Inr (s, r')) \<Longrightarrow> set s \<subseteq> set POSSIBLE_CHARS"
  shows "encoded f r \<noteq> Some (Inl e)"
proof (cases "f r")
  case None
  then show ?thesis by (simp add: encoded_def)
next
  case (Some res)
  with assms(1) [of r] obtain s r' where fr: "f r = Some (Inr (s, r'))"
    by (cases res) auto
  from assms(2) [OF fr] obtain ids where "string_to_ids s POSSIBLE_CHARS = Inr ids"
    using string_to_ids_total by blast
  with fr show ?thesis by (simp add: encoded_def)
qed

lemma comprehension_no_error:
  assumes "\<And>r e. f r \<noteq> Some (Inl e)"
  shows "comprehension n f r \<noteq> Some (Inl e)"
proof (induction n arbitrary: r)
  case 0
  show ?case by simp
next
  case (Suc n)
  show ?case
  proof (cases "f r")
    case None
    then show ?thesis by simp
  next
    case (Some res)
    with assms [of r] obtain x r1 where fr: "f r = Some (Inr (x, r1))"
      by (cases res) auto
    with Suc.IH [of r1] show ?thesis
      by (auto split: option.splits sum.splits)
  qed
qed

lemma generate_dataset_terminates:
  assumes "fair r"
  shows "\<exists>X y r'. generate_dataset n r = Some (Inr ((X, y), r'))"
proof -
  from comprehension_terminates [OF encoded_generate_string_terminates assms]
  obtain good m where
    g: "comprehension (nat (n div 2)) (encoded (generate_string embedded_reber_grammar)) r =
          Some (Inr (good, sdrop m r))"
    by blast
  from comprehension_terminates [OF encoded_generate_corrupted_string_terminates
      fair_sdrop [OF assms, of m]]
  obtain bad k where
    b: "comprehension (nat (n - n div 2))
          (encoded (generate_corrupted_string embedded_reber_grammar POSSIBLE_CHARS))
          (sdrop m r) = Some (Inr (bad, sdrop k (sdrop m r)))"
    by blast
  from g b show ?thesis by (simp add: generate_dataset_def)
qed

lemma generate_dataset_no_error: "generate_dataset n r \<noteq> Some (Inl e)"
proof -
  have g: "comprehension k (encoded (generate_string embedded_reber_grammar)) q \<noteq> Some (Inl e')"
    for k q e'
    by (intro comprehension_no_error encoded_no_error
        generate_string_stock_no_error [OF stock_embedded])
      (rule generate_string_stock(4) [OF stock_embedded])
  have b: "comprehension k
      (encoded (generate_corrupted_string embedded_reber_grammar POSSIBLE_CHARS)) q \<noteq>
      Some (Inl e')" for k q e'
    by (intro comprehension_no_error encoded_no_error
        generate_corrupted_string_stock_no_error [OF stock_embedded])
      (rule generate_corrupted_string_stock_symbols [OF stock_embedded])
  from g b show ?thesis
    by (auto simp: generate_dataset_def split: option.splits sum.splits)
qed

lemma fair_sconst_1: "fair (sconst 1)"
  by (auto simp: fair_def)

text \<open>
  C3: for a size \<open>n \<ge> 0\<close>, \<open>generate_dataset n\<close> never raises, returns on every draw
  sequence in which two odd draws in a row keep occurring, and what it returns has exactly
  \<open>n\<close> examples: the labels are \<open>n div 2\<close> rows \<^verbatim>\<open>[1.]\<close> followed by \<open>n - n div 2\<close> rows
  \<^verbatim>\<open>[0.]\<close>. Size 0 gives the empty dataset, size 1 one example with label 0.
\<close>

theorem generate_dataset_balanced:
  assumes "0 \<le> n"
  shows "(fair r \<longrightarrow> (\<exists>X y r'. generate_dataset n r = Some (Inr ((X, y), r')))) \<and>
         (\<forall>e. generate_dataset n r \<noteq> Some (Inl e)) \<and>
         (\<forall>X y r'. generate_dataset n r = Some (Inr ((X, y), r')) \<longrightarrow>
            length X = nat n \<and> length y = nat n \<and>
            y = replicate (nat (n div 2)) [1] @ replicate (nat (n - n div 2)) [0] \<and>
            length (filter (\<lambda>l. l = [1]) y) = nat (n div 2) \<and>
            length (filter (\<lambda>l. l = [0]) y) = nat (n - n div 2)) \<and>
         generate_dataset 0 r = Some (Inr (([], []), r)) \<and>
         (\<forall>X y r'. generate_dataset 1 r = Some (Inr ((X, y), r')) \<longrightarrow>
            length X = 1 \<and> y = [[0]])"
proof (intro conjI allI impI)
  assume "fair r"
  then show "\<exists>X y r'. generate_dataset n r = Some (Inr ((X, y), r'))"
    by (rule generate_dataset_terminates)
next
  fix e show "generate_dataset n r \<noteq> Some (Inl e)" by (rule generate_dataset_no_error)
next
  show "generate_dataset 0 r = Some (Inr (([], []), r))"
    by (simp add: generate_dataset_def)
next
  fix X y r' assume "generate_dataset 1 r = Some (Inr ((X, y), r'))"
  from generate_dataset_Inr [OF this] show "length X = 1" "y = [[0]]" by simp_all
next
  fix X y r' assume a: "generate_dataset n r = Some (Inr ((X, y), r'))"
  from assms have split: "nat (n div 2) + nat (n - n div 2) = nat n" by linarith
  from generate_dataset_Inr [OF a] have len: "length X = nat (n div 2) + nat (n - n div 2)"
    and y: "y = replicate (nat (n div 2)) [1] @ replicate (nat (n - n div 2)) [0]"
    by simp_all
  from len split show "length X = nat n" by simp
  from y split show "length y = nat n" by simp
  from y show "y = replicate (nat (n div 2)) [1] @ replicate (nat (n - n div 2)) [0]" .
  from y show "length (filter (\<lambda>l. l = [1]) y) = nat (n div 2)" by simp
  from y show "length (filter (\<lambda>l. l = [0]) y) = nat (n - n div 2)" by simp
qed

lemma draws_encoded:
  "encoded (generate_string embedded_reber_grammar) (sconst 1) =
     Some (Inr ([0, 2, 0, 2, 5, 5, 1, 2, 1], sconst 1))"
  "encoded (generate_corrupted_string embedded_reber_grammar POSSIBLE_CHARS) (sconst 1) =
     Some (Inr ([0, 1, 0, 2, 5, 5, 1, 2, 1], sconst 1))"
  unfolding encoded_def draws_BPBPVVEPE draws_BEBPVVEPE
  by (simp_all add: POSSIBLE_CHARS_def)

lemma draws_dataset_2:
  "generate_dataset 2 (sconst 1) =
     Some (Inr (([[0, 2, 0, 2, 5, 5, 1, 2, 1], [0, 1, 0, 2, 5, 5, 1, 2, 1]], [[1], [0]]),
                sconst 1))"
proof -
  have n: "nat (2 div 2) = Suc 0" "nat (2 - 2 div 2) = Suc 0" by simp_all
  show ?thesis
    by (simp add: generate_dataset_def n draws_encoded [unfolded One_nat_def])
qed

theorem generate_dataset_balanced_witness:
  "(0::int) \<le> 2 \<and> fair (sconst 1) \<and>
   generate_dataset 2 (sconst 1) =
     Some (Inr (([[0, 2, 0, 2, 5, 5, 1, 2, 1], [0, 1, 0, 2, 5, 5, 1, 2, 1]], [[1], [0]]),
                sconst 1)) \<and>
   length [[0, 2, 0, 2, 5, 5, 1, 2, 1], [0, 1, 0, 2, 5, 5, 1, 2, 1 :: nat]] = nat 2 \<and>
   [[1], [0 :: real]] = replicate (nat (2 div 2)) [1] @ replicate (nat (2 - 2 div 2)) [0]"
proof -
  have h: "(0::int) \<le> 2" by simp
  from generate_dataset_balanced [OF h, of "sconst 1"] draws_dataset_2 fair_sconst_1 h
  show ?thesis by blast
qed

section \<open>Reproducible runs\<close>

lemma draw_determinedI:
  assumes "\<And>r x r'. f r = Some (Inr (x, r')) \<Longrightarrow>
    \<exists>m. r' = sdrop m r \<and> (\<forall>q. stake m q = stake m r \<longrightarrow> f q = Some (Inr (x, sdrop m q)))"
  shows "draw_determined f"
  using assms unfolding draw_determined_def by blast

lemma draw_determinedD:
  assumes "draw_determined f" "f r = Some (Inr (x, r'))"
  obtains m where "r' = sdrop m r"
    and "\<And>q. stake m q = stake m r \<Longrightarrow> f q = Some (Inr (x, sdrop m q))"
  using assms unfolding draw_determined_def by blast

lemma stake_split:
  assumes "stake (m + n) q = stake (m + n) r"
  shows "stake m q = stake m r" and "stake n (sdrop m q) = stake n (sdrop m r)"
proof -
  from assms have "stake m q @ stake n (sdrop m q) = stake m r @ stake n (sdrop m r)"
    by (simp only: stake_add)
  then have "stake m q = stake m r \<and> stake n (sdrop m q) = stake n (sdrop m r)"
    by (rule append_eq_append_conv [THEN iffD1, rotated]) simp
  then show "stake m q = stake m r" and "stake n (sdrop m q) = stake n (sdrop m r)"
    by blast+
qed

lemma generate_loop_draws:
  assumes "generate_loop g st out r = Some y"
  shows "\<forall>s r'. y = Inr (s, r') \<longrightarrow>
    (\<exists>m. r' = sdrop m r \<and>
       (\<forall>q. stake m q = stake m r \<longrightarrow> generate_loop g st out q = Some (Inr (s, sdrop m q))))"
  using assms
proof (induction g st out r y rule: generate_loop.raw_induct [rotated 1, consumes 1])
  case (1 f g state out r y)
  show ?case
  proof (cases state)
    case None
    with 1(2) have "y = Inr (concat out, sdrop 0 r)" by simp
    moreover have "generate_loop g state out q = Some (Inr (concat out, sdrop 0 q))" for q
      using None by (simp add: generate_loop_None)
    ultimately show ?thesis by blast
  next
    case (Some st)
    show ?thesis
    proof (intro allI impI)
      fix s r' assume y: "y = Inr (s, r')"
      from 1(2) Some y have len: "st < length g"
        by (auto split: if_splits)
      from 1(2) Some y len obtain index r1 where
        ri: "randint (length (g ! st)) r = Inr (index, r1)"
        by (cases "randint (length (g ! st)) r") auto
      then have ne: "g ! st \<noteq> []" and index: "index = shd r mod length (g ! st)"
        and r1: "r1 = stl r"
        by (simp_all add: randint_Inr)
      obtain p st' where tr: "g ! st ! index = (p, st')" by (cases "g ! st ! index")
      show "\<exists>m. r' = sdrop m r \<and>
        (\<forall>q. stake m q = stake m r \<longrightarrow> generate_loop g state out q = Some (Inr (s, sdrop m q)))"
      proof (cases p)
        case (Lit a)
        with 1(2) Some y len ri tr have "f g st' (out @ [a]) r1 = Some (Inr (s, r'))"
          by simp
        from 1(1) [OF this] obtain m where m: "r' = sdrop m r1"
          and det: "\<And>q. stake m q = stake m r1 \<Longrightarrow>
             generate_loop g st' (out @ [a]) q = Some (Inr (s, sdrop m q))"
          by blast
        have "generate_loop g state out q = Some (Inr (s, sdrop (Suc m) q))"
          if "stake (Suc m) q = stake (Suc m) r" for q
        proof -
          from that have hd: "shd q = shd r" and tl: "stake m (stl q) = stake m r1"
            by (simp_all add: r1)
          from tr Lit index hd have "g ! st ! (shd q mod length (g ! st)) = (Lit a, st')"
            by simp
          from generate_loop_Lit [OF len ne this] det [OF tl] Some show ?thesis by simp
        qed
        moreover from m r1 have "r' = sdrop (Suc m) r" by simp
        ultimately show ?thesis by blast
      next
        case (Sub g')
        with 1(2) Some y len ri tr obtain res where
          sub: "f g' (Some 0) [] r1 = Some res" and
          rest: "(case res of Inl e \<Rightarrow> Some (Inl e)
                  | Inr (u, r2) \<Rightarrow> f g st' (out @ [u]) r2) = Some (Inr (s, r'))"
          by (auto simp: bind_eq_Some_conv)
        from rest obtain u r2 where res: "res = Inr (u, r2)"
          and cont: "f g st' (out @ [u]) r2 = Some (Inr (s, r'))"
          by (cases res) auto
        from 1(1) [OF sub] res obtain m1 where m1: "r2 = sdrop m1 r1"
          and det1: "\<And>q. stake m1 q = stake m1 r1 \<Longrightarrow>
             generate_loop g' (Some 0) [] q = Some (Inr (u, sdrop m1 q))"
          by blast
        from 1(1) [OF cont] obtain m2 where m2: "r' = sdrop m2 r2"
          and det2: "\<And>q. stake m2 q = stake m2 r2 \<Longrightarrow>
             generate_loop g st' (out @ [u]) q = Some (Inr (s, sdrop m2 q))"
          by blast
        have "generate_loop g state out q = Some (Inr (s, sdrop (Suc (m1 + m2)) q))"
          if "stake (Suc (m1 + m2)) q = stake (Suc (m1 + m2)) r" for q
        proof -
          from that have hd: "shd q = shd r"
            and tl: "stake (m1 + m2) (stl q) = stake (m1 + m2) r1"
            by (simp_all add: r1)
          from stake_split [OF tl] m1 have a: "stake m1 (stl q) = stake m1 r1"
            and b: "stake m2 (sdrop m1 (stl q)) = stake m2 r2"
            by simp_all
          from tr Sub index hd have "g ! st ! (shd q mod length (g ! st)) = (Sub g', st')"
            by simp
          from generate_loop_Sub [OF len ne this det1 [OF a]] det2 [OF b] Some
          show ?thesis by simp
        qed
        moreover from m1 m2 r1 have "r' = sdrop (Suc (m1 + m2)) r" by simp
        ultimately show ?thesis by blast
      qed
    qed
  qed
qed

lemma draw_determined_generate_string: "draw_determined (generate_string g)"
  by (rule draw_determinedI) (use generate_loop_draws in \<open>simp add: generate_string_def\<close>)

lemma draw_determined_bind:
  assumes f: "draw_determined f" and k: "\<And>x. draw_determined (k x)"
    and h: "\<And>r. h r = (case f r of None \<Rightarrow> None | Some (Inl e) \<Rightarrow> Some (Inl e)
                          | Some (Inr (x, r1)) \<Rightarrow> k x r1)"
  shows "draw_determined h"
proof (rule draw_determinedI)
  fix r y r' assume "h r = Some (Inr (y, r'))"
  then obtain x r1 where fr: "f r = Some (Inr (x, r1))" and kr: "k x r1 = Some (Inr (y, r'))"
    by (auto simp: h split: option.splits sum.splits)
  from draw_determinedD [OF f fr] obtain m1 where m1: "r1 = sdrop m1 r"
    and det1: "\<And>q. stake m1 q = stake m1 r \<Longrightarrow> f q = Some (Inr (x, sdrop m1 q))"
    by blast
  from draw_determinedD [OF k kr] obtain m2 where m2: "r' = sdrop m2 r1"
    and det2: "\<And>q. stake m2 q = stake m2 r1 \<Longrightarrow> k x q = Some (Inr (y, sdrop m2 q))"
    by blast
  have "h q = Some (Inr (y, sdrop (m1 + m2) q))" if "stake (m1 + m2) q = stake (m1 + m2) r" for q
  proof -
    from stake_split [OF that] m1 have a: "stake m1 q = stake m1 r"
      and b: "stake m2 (sdrop m1 q) = stake m2 r1"
      by simp_all
    from det1 [OF a] det2 [OF b] show ?thesis by (simp add: h)
  qed
  moreover from m1 m2 have "r' = sdrop (m1 + m2) r" by simp
  ultimately show "\<exists>m. r' = sdrop m r \<and>
      (\<forall>q. stake m q = stake m r \<longrightarrow> h q = Some (Inr (y, sdrop m q)))"
    by blast
qed

lemma draw_determined_return: "draw_determined (\<lambda>r. Some (Inr (x, r)))"
  by (rule draw_determinedI, rule exI [of _ 0]) simp

lemma draw_determined_fail: "draw_determined (\<lambda>r. Some (Inl e))"
  by (rule draw_determinedI) simp

lemma draw_determined_two_draws:
  "draw_determined (\<lambda>r1.
     case randint (length good) r1 of
       Inl e \<Rightarrow> Some (Inl e)
     | Inr (index, r2) \<Rightarrow>
         (let good_char = good ! index in
          case choice (sorted_list_of_set (set chars - {good_char})) r2 of
            Inl e \<Rightarrow> Some (Inl e)
          | Inr (bad_char, r3) \<Rightarrow>
              Some (Inr (take index good @ [bad_char] @ drop (index + 1) good, r3))))"
proof (rule draw_determinedI)
  fix r x r'
  let ?k = "\<lambda>r1. case randint (length good) r1 of
       Inl e \<Rightarrow> Some (Inl e)
     | Inr (index, r2) \<Rightarrow>
         (let good_char = good ! index in
          case choice (sorted_list_of_set (set chars - {good_char})) r2 of
            Inl e \<Rightarrow> Some (Inl e)
          | Inr (bad_char, r3) \<Rightarrow>
              Some (Inr (take index good @ [bad_char] @ drop (index + 1) good, r3)))"
  assume a: "?k r = Some (Inr (x, r'))"
  have dep: "?k q = (case ?k r of Some (Inr (y, _)) \<Rightarrow> Some (Inr (y, stl (stl q))) | z \<Rightarrow> z)"
    if "shd q = shd r" "shd (stl q) = shd (stl r)" for q
    using that
    by (simp add: randint_def choice_def Let_def del: length_sorted_list_of_set)
  from a have r': "r' = sdrop (Suc (Suc 0)) r"
    by (auto simp: randint_def choice_def Let_def split: if_splits)
  have "?k q = Some (Inr (x, sdrop (Suc (Suc 0)) q))"
    if "stake (Suc (Suc 0)) q = stake (Suc (Suc 0)) r" for q
  proof -
    from that have "shd q = shd r" "shd (stl q) = shd (stl r)" by simp_all
    from dep [OF this] a show ?thesis by simp
  qed
  with r' show "\<exists>m. r' = sdrop m r \<and>
      (\<forall>q. stake m q = stake m r \<longrightarrow> ?k q = Some (Inr (x, sdrop m q)))"
    by blast
qed

lemma draw_determined_generate_corrupted_string:
  "draw_determined (generate_corrupted_string g chars)"
  by (rule draw_determined_bind [OF draw_determined_generate_string draw_determined_two_draws])
    (simp add: generate_corrupted_string_def split: option.splits sum.splits)

lemma draw_determined_encoded:
  assumes "draw_determined f"
  shows "draw_determined (encoded f)"
proof (rule draw_determined_bind [OF assms, where
      k = "\<lambda>s r1. case string_to_ids s POSSIBLE_CHARS of
                     Inl e \<Rightarrow> Some (Inl e) | Inr ids \<Rightarrow> Some (Inr (ids, r1))"])
  fix s show "draw_determined (\<lambda>r1. case string_to_ids s POSSIBLE_CHARS of
                     Inl e \<Rightarrow> Some (Inl e) | Inr ids \<Rightarrow> Some (Inr (ids, r1)))"
    by (cases "string_to_ids s POSSIBLE_CHARS")
      (simp_all add: draw_determined_return draw_determined_fail)
next
  fix r show "encoded f r = (case f r of None \<Rightarrow> None | Some (Inl e) \<Rightarrow> Some (Inl e)
      | Some (Inr (s, r1)) \<Rightarrow>
          (case string_to_ids s POSSIBLE_CHARS of
             Inl e \<Rightarrow> Some (Inl e) | Inr ids \<Rightarrow> Some (Inr (ids, r1))))"
    by (simp add: encoded_def)
qed

lemma draw_determined_map:
  assumes "draw_determined f"
  shows "draw_determined (\<lambda>r. case f r of None \<Rightarrow> None | Some (Inl e) \<Rightarrow> Some (Inl e)
      | Some (Inr (x, r1)) \<Rightarrow> Some (Inr (h x, r1)))"
  by (rule draw_determined_bind [OF assms, where k = "\<lambda>x r1. Some (Inr (h x, r1))"])
    (simp_all add: draw_determined_return)

lemma draw_determined_session:
  assumes "\<And>f. f \<in> set fs \<Longrightarrow> draw_determined f"
  shows "draw_determined (session fs)"
  using assms
proof (induction fs)
  case Nil
  have eq: "session [] = (\<lambda>r. Some (Inr ([], r)))" by (rule ext) simp
  show ?case unfolding eq by (rule draw_determined_return)
next
  case (Cons f fs)
  then have f: "draw_determined f" and fs: "draw_determined (session fs)" by simp_all
  show ?case
    by (rule draw_determined_bind [OF f, where
          k = "\<lambda>x r1. case session fs r1 of None \<Rightarrow> None | Some (Inl e) \<Rightarrow> Some (Inl e)
                 | Some (Inr (xs, r2)) \<Rightarrow> Some (Inr (x # xs, r2))"])
      (simp_all add: draw_determined_map [OF fs])
qed

lemma comprehension_session: "comprehension n f r = session (replicate n f) r"
  by (induction n arbitrary: r) (simp_all split: option.splits sum.splits)

lemma draw_determined_comprehension:
  assumes "draw_determined f"
  shows "draw_determined (comprehension n f)"
proof -
  have "comprehension n f = session (replicate n f)"
    by (rule ext) (rule comprehension_session)
  moreover have "draw_determined (session (replicate n f))"
    by (rule draw_determined_session) (simp add: assms)
  ultimately show ?thesis by simp
qed

lemma draw_determined_generate_dataset: "draw_determined (generate_dataset n)"
proof -
  let ?good = "comprehension (nat (n div 2)) (encoded (generate_string embedded_reber_grammar))"
  let ?bad = "comprehension (nat (n - n div 2))
      (encoded (generate_corrupted_string embedded_reber_grammar POSSIBLE_CHARS))"
  have good: "draw_determined ?good"
    by (intro draw_determined_comprehension draw_determined_encoded
        draw_determined_generate_string)
  have bad: "draw_determined ?bad"
    by (intro draw_determined_comprehension draw_determined_encoded
        draw_determined_generate_corrupted_string)
  show ?thesis
    by (rule draw_determined_bind [OF good, where
          k = "\<lambda>good_strings r1. case ?bad r1 of None \<Rightarrow> None | Some (Inl e) \<Rightarrow> Some (Inl e)
                 | Some (Inr (bad_strings, r2)) \<Rightarrow>
                     Some (Inr ((good_strings @ bad_strings,
                                 replicate (length good_strings) [1] @
                                 replicate (length bad_strings) [0]), r2))"])
      (simp_all add: draw_determined_map [OF bad] generate_dataset_def)
qed
lemma draw_determined_perform: "draw_determined (perform c)"
proof (cases c)
  case (Call_generate_string g)
  have "perform (Call_generate_string g) = (\<lambda>r. case generate_string g r of
        None \<Rightarrow> None | Some (Inl e) \<Rightarrow> Some (Inl e)
      | Some (Inr (s, r1)) \<Rightarrow> Some (Inr (Output_string s, r1)))"
    by (rule ext) simp
  with draw_determined_map [OF draw_determined_generate_string, of Output_string g]
  show ?thesis by (simp only: Call_generate_string)
next
  case (Call_generate_corrupted_string g chars)
  have "perform (Call_generate_corrupted_string g chars) =
      (\<lambda>r. case generate_corrupted_string g chars r of
        None \<Rightarrow> None | Some (Inl e) \<Rightarrow> Some (Inl e)
      | Some (Inr (s, r1)) \<Rightarrow> Some (Inr (Output_string s, r1)))"
    by (rule ext) simp
  with draw_determined_map [OF draw_determined_generate_corrupted_string, of Output_string g chars]
  show ?thesis by (simp only: Call_generate_corrupted_string)
next
  case (Call_generate_dataset n)
  have "perform (Call_generate_dataset n) = (\<lambda>r. case generate_dataset n r of
        None \<Rightarrow> None | Some (Inl e) \<Rightarrow> Some (Inl e)
      | Some (Inr (d, r1)) \<Rightarrow> Some (Inr (Output_dataset d, r1)))"
    by (rule ext) simp
  with draw_determined_map [OF draw_determined_generate_dataset, of Output_dataset n]
  show ?thesis by (simp only: Call_generate_dataset)
qed

text \<open>
  C7: a session of \<open>generate_string\<close>, \<open>generate_corrupted_string\<close> and
  \<open>generate_dataset\<close> calls that returns has taken some number \<open>m\<close> of draws, and the same
  session on any source with the same first \<open>m\<close> draws (an identically seeded one above
  all) returns the same outputs. A corrupter call takes its draws in this order: first
  the \<open>m\<close> draws of the generator, then draw \<open>m\<close> for the position, then draw \<open>m + 1\<close> for
  the replacement symbol.
\<close>

theorem seeded_runs_agree:
  "(session (map perform calls) r = Some (Inr (outs, r')) \<longrightarrow>
      (\<exists>m. r' = sdrop m r \<and>
         (\<forall>q. stake m q = stake m r \<longrightarrow>
            session (map perform calls) q = Some (Inr (outs, sdrop m q))))) \<and>
   (generate_corrupted_string g chars r = Some (Inr (s, r'')) \<longrightarrow>
      (\<exists>good m. generate_string g r = Some (Inr (good, sdrop m r)) \<and>
         (\<forall>q. stake m q = stake m r \<longrightarrow> generate_string g q = Some (Inr (good, sdrop m q))) \<and>
         (\<exists>i c. i = (r !! m) mod length good \<and>
            c = sorted_list_of_set (set chars - {good ! i}) !
                  ((r !! Suc m) mod length (sorted_list_of_set (set chars - {good ! i}))) \<and>
            s = take i good @ [c] @ drop (i + 1) good) \<and>
         r'' = sdrop (m + 2) r))"
proof (intro conjI impI)
  assume a: "session (map perform calls) r = Some (Inr (outs, r'))"
  have "draw_determined (session (map perform calls))"
    by (rule draw_determined_session) (auto simp: draw_determined_perform)
  from draw_determinedD [OF this a]
  show "\<exists>m. r' = sdrop m r \<and>
         (\<forall>q. stake m q = stake m r \<longrightarrow>
            session (map perform calls) q = Some (Inr (outs, sdrop m q)))"
    by blast
next
  assume "generate_corrupted_string g chars r = Some (Inr (s, r''))"
  then obtain good r1 where
    gen: "generate_string g r = Some (Inr (good, r1))" and
    s: "s = take (shd r1 mod length good) good @
            [sorted_list_of_set (set chars - {good ! (shd r1 mod length good)}) !
               (shd (stl r1) mod
                  length (sorted_list_of_set (set chars - {good ! (shd r1 mod length good)})))] @
            drop (Suc (shd r1 mod length good)) good" and
    r'': "r'' = stl (stl r1)"
    unfolding generate_corrupted_string_Inr by blast
  from draw_determinedD [OF draw_determined_generate_string gen]
  obtain m where r1: "r1 = sdrop m r"
    and det: "\<And>q. stake m q = stake m r \<Longrightarrow> generate_string g q = Some (Inr (good, sdrop m q))"
    by blast
  from gen r1 have "generate_string g r = Some (Inr (good, sdrop m r))" by simp
  moreover from s r1 have "\<exists>i c. i = (r !! m) mod length good \<and>
            c = sorted_list_of_set (set chars - {good ! i}) !
                  ((r !! Suc m) mod length (sorted_list_of_set (set chars - {good ! i}))) \<and>
            s = take i good @ [c] @ drop (i + 1) good"
    by (simp del: length_sorted_list_of_set)
  moreover from r'' r1 have "r'' = sdrop (m + 2) r" by simp
  ultimately show "\<exists>good m. generate_string g r = Some (Inr (good, sdrop m r)) \<and>
         (\<forall>q. stake m q = stake m r \<longrightarrow> generate_string g q = Some (Inr (good, sdrop m q))) \<and>
         (\<exists>i c. i = (r !! m) mod length good \<and>
            c = sorted_list_of_set (set chars - {good ! i}) !
                  ((r !! Suc m) mod length (sorted_list_of_set (set chars - {good ! i}))) \<and>
            s = take i good @ [c] @ drop (i + 1) good) \<and>
         r'' = sdrop (m + 2) r"
    using det by blast
qed

lemma draws_session:
  "session (map perform
      [Call_generate_string default_reber_grammar,
       Call_generate_corrupted_string embedded_reber_grammar POSSIBLE_CHARS,
       Call_generate_dataset 2]) (sconst 1) =
     Some (Inr ([Output_string ''BPVVE'', Output_string ''BEBPVVEPE'',
                 Output_dataset ([[0, 2, 0, 2, 5, 5, 1, 2, 1], [0, 1, 0, 2, 5, 5, 1, 2, 1]],
                                 [[1], [0]])], sconst 1))"
  by (simp add: draws_BPVVE [unfolded One_nat_def] draws_BEBPVVEPE [unfolded One_nat_def]
      draws_dataset_2 [unfolded One_nat_def])

theorem seeded_runs_agree_witness:
  "session (map perform
      [Call_generate_string default_reber_grammar,
       Call_generate_corrupted_string embedded_reber_grammar POSSIBLE_CHARS,
       Call_generate_dataset 2]) (sconst 1) =
     Some (Inr ([Output_string ''BPVVE'', Output_string ''BEBPVVEPE'',
                 Output_dataset ([[0, 2, 0, 2, 5, 5, 1, 2, 1], [0, 1, 0, 2, 5, 5, 1, 2, 1]],
                                 [[1], [0]])], sconst 1)) \<and>
   (\<exists>m. \<forall>q. stake m q = stake m (sconst 1) \<longrightarrow>
      session (map perform
        [Call_generate_string default_reber_grammar,
         Call_generate_corrupted_string embedded_reber_grammar POSSIBLE_CHARS,
         Call_generate_dataset 2]) q =
      Some (Inr ([Output_string ''BPVVE'', Output_string ''BEBPVVEPE'',
                  Output_dataset ([[0, 2, 0, 2, 5, 5, 1, 2, 1], [0, 1, 0, 2, 5, 5, 1, 2, 1]],
                                  [[1], [0]])], sdrop m q))) \<and>
   generate_corrupted_string embedded_reber_grammar POSSIBLE_CHARS (sconst 1) =
     Some (Inr (''BEBPVVEPE'', sconst 1)) \<and>
   (\<exists>good m. generate_string embedded_reber_grammar (sconst 1) =
      Some (Inr (good, sdrop m (sconst 1))) \<and>
      (\<forall>q. stake m q = stake m (sconst 1) \<longrightarrow>
         generate_string embedded_reber_grammar q = Some (Inr (good, sdrop m q))))"
  using draws_session draws_BEBPVVEPE
    seeded_runs_agree [of
      "[Call_generate_string default_reber_grammar,
        Call_generate_corrupted_string embedded_reber_grammar POSSIBLE_CHARS,
        Call_generate_dataset 2]" "sconst 1"
      "[Output_string ''BPVVE'', Output_string ''BEBPVVEPE'',
        Output_dataset ([[0, 2, 0, 2, 5, 5, 1, 2, 1], [0, 1, 0, 2, 5, 5, 1, 2, 1]],
                        [[1], [0]])]" "sconst 1"
      embedded_reber_grammar POSSIBLE_CHARS "''BEBPVVEPE''" "sconst 1"]
  by blast

end
